theory Spec2Isabelle
  imports Main "HOL-Library.Multiset"
begin

section \<open>The sorting and searching toolkit of \<^verbatim>\<open>citybike/algorithms.py\<close>\<close>

text \<open>
  The module holds four algorithms over Python lists, each parameterised by a key
  function: \<^verbatim>\<open>merge_sort\<close> (with its helper \<^verbatim>\<open>_merge\<close>), \<^verbatim>\<open>insertion_sort\<close>,
  \<^verbatim>\<open>binary_search\<close> and \<^verbatim>\<open>linear_search\<close>.

  This first part reads them as functions on list values. Items have an arbitrary
  type \<open>'a\<close>, keys a linearly ordered type \<open>'k\<close>, and the key function is total.
  Every \<^verbatim>\<open>while\<close> loop is a recursive function over the loop variables of the source,
  with the source's guard and the source's index expressions. List indices that can
  become negative in the source (\<^verbatim>\<open>j\<close> of the insertion loop, \<^verbatim>\<open>high\<close> and \<^verbatim>\<open>mid\<close> of the
  binary search) are integers. Arguments keep the order of the Python signatures.
  \<^verbatim>\<open>_merge\<close> is called \<open>merge\<close> here, since a name cannot start with an underscore.

  A second part, further down, models the same code with list objects on a heap, a key
  function that may raise and loops that need not end. The lemmas \<open>py_merge_sort_total\<close>,
  \<open>py_insertion_sort_total\<close>, \<open>py_binary_search_total\<close> and \<open>py_linear_search_total\<close>
  connect the two parts: when the key function raises on no item, a call returns what the
  function of this first part computes, and in particular every list index that the
  functions below read is within the list.
\<close>

subsection \<open>Merge sort\<close>

text \<open>
  The loop of \<^verbatim>\<open>_merge\<close> together with the two \<^verbatim>\<open>extend\<close> calls that follow it.
  The state is \<^verbatim>\<open>i\<close>, \<^verbatim>\<open>j\<close> and \<^verbatim>\<open>result\<close>; \<^verbatim>\<open>append\<close> adds at the end of \<^verbatim>\<open>result\<close>;
  \<^verbatim>\<open>left[i:]\<close> is \<open>drop i left\<close>.
\<close>

function merge_loop :: "'a list \<Rightarrow> 'a list \<Rightarrow> ('a \<Rightarrow> 'k::linorder) \<Rightarrow> nat \<Rightarrow> nat \<Rightarrow> 'a list \<Rightarrow> 'a list" where
  "merge_loop left right key i j result =
     (if i < length left \<and> j < length right then
        (if key (left ! i) \<le> key (right ! j)
         then merge_loop left right key (i + 1) j (result @ [left ! i])
         else merge_loop left right key i (j + 1) (result @ [right ! j]))
      else result @ drop i left @ drop j right)"
  by pat_completeness auto
termination
  by (relation "measure (\<lambda>(left, right, key, i, j, result). (length left - i) + (length right - j))") auto

declare merge_loop.simps [simp del]

definition merge :: "'a list \<Rightarrow> 'a list \<Rightarrow> ('a \<Rightarrow> 'k::linorder) \<Rightarrow> 'a list" where
  "merge left right key = merge_loop left right key 0 0 []"

text \<open>
  \<^verbatim>\<open>merge_sort\<close>: \<^verbatim>\<open>list(data)\<close> has the elements of \<^verbatim>\<open>data\<close>; \<^verbatim>\<open>data[:mid]\<close> and
  \<^verbatim>\<open>data[mid:]\<close> are \<open>take mid data\<close> and \<open>drop mid data\<close>.
\<close>

function merge_sort :: "'a list \<Rightarrow> ('a \<Rightarrow> 'k::linorder) \<Rightarrow> 'a list" where
  "merge_sort data key =
     (if length data \<le> 1 then data
      else
        let mid = length data div 2;
            left = merge_sort (take mid data) key;
            right = merge_sort (drop mid data) key
        in merge left right key)"
  by pat_completeness auto
termination
  by (relation "measure (\<lambda>(data, key). length data)") auto

declare merge_sort.simps [simp del]

subsection \<open>Insertion sort\<close>

text \<open>
  The inner \<^verbatim>\<open>while\<close> loop together with the assignment \<^verbatim>\<open>result[j + 1] = current\<close>
  that follows it. \<^verbatim>\<open>j\<close> runs down to \<open>-1\<close>, so it is an integer; the guard
  \<^verbatim>\<open>j >= 0\<close> is tested before \<^verbatim>\<open>result[j]\<close> is read.
\<close>

function insertion_inner :: "('a \<Rightarrow> 'k::linorder) \<Rightarrow> 'a \<Rightarrow> int \<Rightarrow> 'a list \<Rightarrow> 'a list" where
  "insertion_inner key current j result =
     (if j \<ge> 0 \<and> key (result ! nat j) > key current
      then insertion_inner key current (j - 1) (result[nat (j + 1) := result ! nat j])
      else result[nat (j + 1) := current])"
  by pat_completeness auto
termination
  by (relation "measure (\<lambda>(key, current, j, result). nat (j + 1))") auto

declare insertion_inner.simps [simp del]

text \<open>
  The \<^verbatim>\<open>for\<close> loop runs \<^verbatim>\<open>i\<close> over \<^verbatim>\<open>range(1, len(result))\<close>, which is fixed when the
  loop starts; each round reads \<^verbatim>\<open>current = result[i]\<close> and starts the inner loop at
  \<^verbatim>\<open>j = i - 1\<close>.
\<close>

definition insertion_sort :: "'a list \<Rightarrow> ('a \<Rightarrow> 'k::linorder) \<Rightarrow> 'a list" where
  "insertion_sort data key =
     foldl (\<lambda>result i. insertion_inner key (result ! i) (int i - 1) result)
       data [1 ..< length data]"

subsection \<open>Binary search\<close>

text \<open>
  The loop of \<^verbatim>\<open>binary_search\<close> over \<^verbatim>\<open>low\<close> and \<^verbatim>\<open>high\<close>. \<^verbatim>\<open>high\<close> starts at
  \<^verbatim>\<open>len(sorted_data) - 1\<close>, which is \<open>-1\<close> for the empty list. \<^verbatim>\<open>//\<close> is floor
  division, as \<open>div\<close> on \<open>int\<close> is. The result is \<open>Some mid\<close> for \<^verbatim>\<open>return mid\<close> and
  \<open>None\<close> for \<^verbatim>\<open>return None\<close>.
\<close>

function binary_loop :: "'a list \<Rightarrow> 'k \<Rightarrow> ('a \<Rightarrow> 'k::linorder) \<Rightarrow> int \<Rightarrow> int \<Rightarrow> int option" where
  "binary_loop sorted_data target key low high =
     (if low \<le> high then
        let mid = (low + high) div 2;
            mid_val = key (sorted_data ! nat mid)
        in if mid_val = target then Some mid
           else if mid_val < target then binary_loop sorted_data target key (mid + 1) high
           else binary_loop sorted_data target key low (mid - 1)
      else None)"
  by pat_completeness auto
termination
  by (relation "measure (\<lambda>(sorted_data, target, key, low, high). nat (high - low + 1))") auto

declare binary_loop.simps [simp del]

definition binary_search :: "'a list \<Rightarrow> 'k \<Rightarrow> ('a \<Rightarrow> 'k::linorder) \<Rightarrow> int option" where
  "binary_search sorted_data target key =
     binary_loop sorted_data target key 0 (int (length sorted_data) - 1)"

subsection \<open>Linear search\<close>

text \<open>
  \<^verbatim>\<open>for i, item in enumerate(data)\<close> walks the list from the left with a counter that
  starts at 0.
\<close>

fun linear_loop :: "'k \<Rightarrow> ('a \<Rightarrow> 'k) \<Rightarrow> nat \<Rightarrow> 'a list \<Rightarrow> nat option" where
  "linear_loop target key i [] = None"
| "linear_loop target key i (item # rest) =
     (if key item = target then Some i else linear_loop target key (i + 1) rest)"

definition linear_search :: "'a list \<Rightarrow> 'k \<Rightarrow> ('a \<Rightarrow> 'k) \<Rightarrow> nat option" where
  "linear_search data target key = linear_loop target key 0 data"

subsection \<open>The loops as functions on lists\<close>

text \<open>
  Three auxiliary functions for the proofs. They are not further models of the code: each is
  proved below to compute what the corresponding loop computes.
  \<open>merge_lists\<close> is the merge of two lists by their heads; \<open>shift_in\<close> walks the already
  ordered prefix of the insertion sort from its right end (so it takes the prefix reversed)
  and puts \<open>current\<close> behind the first element whose key does not exceed the key of
  \<open>current\<close>; \<open>insert_all\<close> does so for one element after the other.
\<close>

fun merge_lists :: "('a \<Rightarrow> 'k::linorder) \<Rightarrow> 'a list \<Rightarrow> 'a list \<Rightarrow> 'a list" where
  "merge_lists key [] ys = ys"
| "merge_lists key xs [] = xs"
| "merge_lists key (x # xs) (y # ys) =
     (if key x \<le> key y then x # merge_lists key xs (y # ys) else y # merge_lists key (x # xs) ys)"

fun shift_in :: "('a \<Rightarrow> 'k::linorder) \<Rightarrow> 'a \<Rightarrow> 'a list \<Rightarrow> 'a list" where
  "shift_in key current [] = [current]"
| "shift_in key current (y # ys) =
     (if key y > key current then y # shift_in key current ys else current # y # ys)"

definition insert_all :: "('a \<Rightarrow> 'k::linorder) \<Rightarrow> 'a list \<Rightarrow> 'a list \<Rightarrow> 'a list" where
  "insert_all key acc xs = foldl (\<lambda>acc x. shift_in key x acc) acc xs"

section \<open>The calls as Python runs them\<close>

text \<open>
  The second part models what the first part leaves out: lists are mutable objects on a
  heap, the key function may raise, indexing may raise \<^verbatim>\<open>IndexError\<close>, and a loop need not
  terminate.

  \<^item> The heap is the list of all list objects allocated so far; an address is a position in
    it. Allocation appends a new object, and nothing is ever freed, so a heap \<open>h'\<close> that
    starts with \<open>h\<close> has left every object of \<open>h\<close> as it was.
  \<^item> The key function has type \<open>'a \<Rightarrow> 'e + 'k\<close>: \<open>Inl e\<close> when the call raises \<open>e\<close>, \<open>Inr v\<close>
    when it returns \<open>v\<close>. A call of the toolkit ends in \<open>Inl err\<close> (an exception reaches the
    caller) or \<open>Inr v\<close> (it returns \<open>v\<close>).
  \<^item> Every loop and the recursion of \<^verbatim>\<open>merge_sort\<close> are defined with
    \<^theory_text>\<open>partial_function (option)\<close>: \<open>None\<close> stands for a run that never ends, so that
    termination is a theorem about the model rather than a condition for defining it.
  \<^item> Python integers are \<open>int\<close>.

  The two sorts take the address of their argument and the heap, and return the outcome
  with the heap after the call. The two searches only read their argument, so they take
  the list itself.
\<close>

subsection \<open>Exceptions, list objects and the heap\<close>

datatype 'e exn = KeyFailure 'e | IndexError

type_synonym addr = nat

type_synonym 'a heap = "'a list list"

text \<open>
  A new list object: \<^verbatim>\<open>[]\<close>, \<^verbatim>\<open>list(data)\<close> and every slice allocate one.
\<close>

definition alloc :: "'a list \<Rightarrow> 'a heap \<Rightarrow> addr \<times> 'a heap" where
  "alloc xs h = (length h, h @ [xs])"

text \<open>
  \<^verbatim>\<open>xs[i]\<close> and \<^verbatim>\<open>xs[i] = v\<close>: a negative index counts from the end, and an index
  outside the list raises \<^verbatim>\<open>IndexError\<close>.
\<close>

definition py_index :: "'a list \<Rightarrow> int \<Rightarrow> 'e exn + nat" where
  "py_index xs i =
     (let n = int (length xs); j = (if i < 0 then i + n else i)
      in if 0 \<le> j \<and> j < n then Inr (nat j) else Inl IndexError)"

definition py_get :: "'a list \<Rightarrow> int \<Rightarrow> 'e exn + 'a" where
  "py_get xs i = (case py_index xs i of Inl e \<Rightarrow> Inl e | Inr n \<Rightarrow> Inr (xs ! n))"

definition py_set :: "'a list \<Rightarrow> int \<Rightarrow> 'a \<Rightarrow> 'e exn + 'a list" where
  "py_set xs i v = (case py_index xs i of Inl e \<Rightarrow> Inl e | Inr n \<Rightarrow> Inr (xs[n := v]))"

text \<open>
  \<^verbatim>\<open>xs[i:]\<close> and \<^verbatim>\<open>xs[:i]\<close>: a negative bound counts from the end and is clipped at 0;
  a bound beyond the end is clipped by \<open>drop\<close> and \<open>take\<close>.
\<close>

definition slice_start :: "'a list \<Rightarrow> int \<Rightarrow> nat" where
  "slice_start xs i = nat (if i < 0 then max 0 (i + int (length xs)) else i)"

definition slice_from :: "'a list \<Rightarrow> int \<Rightarrow> 'a list" where
  "slice_from xs i = drop (slice_start xs i) xs"

definition slice_to :: "'a list \<Rightarrow> int \<Rightarrow> 'a list" where
  "slice_to xs i = take (slice_start xs i) xs"

text \<open>
  A call \<^verbatim>\<open>key(x)\<close>: an exception of the key function is passed on as it is.
\<close>

definition call_key :: "('a \<Rightarrow> 'e + 'k) \<Rightarrow> 'a \<Rightarrow> 'e exn + 'k" where
  "call_key key x = (case key x of Inl e \<Rightarrow> Inl (KeyFailure e) | Inr v \<Rightarrow> Inr v)"

subsection \<open>Merge sort\<close>

text \<open>
  The test \<^verbatim>\<open>key(left[i]) <= key(right[j])\<close>: the left operand is evaluated first, so
  \<^verbatim>\<open>left[i]\<close>, \<^verbatim>\<open>key(left[i])\<close>, \<^verbatim>\<open>right[j]\<close>, \<^verbatim>\<open>key(right[j])\<close> in this order, and the
  first exception ends the evaluation.
\<close>

definition merge_test ::
  "'a list \<Rightarrow> 'a list \<Rightarrow> ('a \<Rightarrow> 'e + 'k::linorder) \<Rightarrow> int \<Rightarrow> int \<Rightarrow> 'e exn + bool" where
  "merge_test left right key i j =
     (case py_get left i of Inl e \<Rightarrow> Inl e | Inr x \<Rightarrow>
      (case call_key key x of Inl e \<Rightarrow> Inl e | Inr kx \<Rightarrow>
       (case py_get right j of Inl e \<Rightarrow> Inl e | Inr y \<Rightarrow>
        (case call_key key y of Inl e \<Rightarrow> Inl e | Inr ky \<Rightarrow> Inr (kx \<le> ky)))))"

text \<open>
  \<^verbatim>\<open>result.append(src[i])\<close>: the object at \<open>result\<close> is changed in place.
\<close>

definition append_item :: "addr \<Rightarrow> addr \<Rightarrow> int \<Rightarrow> 'a heap \<Rightarrow> 'e exn + 'a heap" where
  "append_item result src i h =
     (case py_get (h ! src) i of Inl e \<Rightarrow> Inl e | Inr x \<Rightarrow> Inr (h[result := h ! result @ [x]]))"

text \<open>
  The \<^verbatim>\<open>while\<close> loop of \<^verbatim>\<open>_merge\<close>. It returns the values of \<^verbatim>\<open>i\<close> and \<^verbatim>\<open>j\<close> at its
  exit, which the two \<^verbatim>\<open>extend\<close> calls use.
\<close>

partial_function (option) py_merge_loop ::
  "addr \<Rightarrow> addr \<Rightarrow> ('a \<Rightarrow> 'e + 'k::linorder) \<Rightarrow> addr \<Rightarrow> int \<Rightarrow> int \<Rightarrow> 'a heap
     \<Rightarrow> (('e exn + int \<times> int) \<times> 'a heap) option" where
  "py_merge_loop left right key result i j h =
     (if i < int (length (h ! left)) \<and> j < int (length (h ! right)) then
        (case merge_test (h ! left) (h ! right) key i j of
           Inl e \<Rightarrow> Some (Inl e, h)
         | Inr le \<Rightarrow>
             if le then
               (case append_item result left i h of
                  Inl e \<Rightarrow> Some (Inl e, h)
                | Inr h' \<Rightarrow> py_merge_loop left right key result (i + 1) j h')
             else
               (case append_item result right j h of
                  Inl e \<Rightarrow> Some (Inl e, h)
                | Inr h' \<Rightarrow> py_merge_loop left right key result i (j + 1) h'))
      else Some (Inr (i, j), h))"

declare py_merge_loop.simps [code]

text \<open>
  \<^verbatim>\<open>result.extend(src[i:])\<close>: the slice is a new object, and its items are added to the
  object at \<open>result\<close>.
\<close>

definition extend_slice :: "addr \<Rightarrow> addr \<Rightarrow> int \<Rightarrow> 'a heap \<Rightarrow> 'a heap" where
  "extend_slice result src i h =
     (let (tmp, h1) = alloc (slice_from (h ! src) i) h
      in h1[result := h1 ! result @ h1 ! tmp])"

text \<open>
  \<^verbatim>\<open>_merge\<close>: \<^verbatim>\<open>result = []\<close>, the loop from \<^verbatim>\<open>i = j = 0\<close>, the two \<^verbatim>\<open>extend\<close> calls.
\<close>

definition py_merge ::
  "addr \<Rightarrow> addr \<Rightarrow> ('a \<Rightarrow> 'e + 'k::linorder) \<Rightarrow> 'a heap \<Rightarrow> (('e exn + addr) \<times> 'a heap) option" where
  "py_merge left right key h =
     (let (result, h1) = alloc [] h
      in case py_merge_loop left right key result 0 0 h1 of
           None \<Rightarrow> None
         | Some (Inl e, h2) \<Rightarrow> Some (Inl e, h2)
         | Some (Inr (i, j), h2) \<Rightarrow>
             Some (Inr result, extend_slice result right j (extend_slice result left i h2)))"

text \<open>
  \<^verbatim>\<open>merge_sort\<close>. \<^verbatim>\<open>mid\<close> is computed once; each recursive call gets a new slice object;
  the second slice is taken from \<^verbatim>\<open>data\<close> as it is after the first recursive call. An
  exception in a recursive call or in \<^verbatim>\<open>_merge\<close> ends the call.
\<close>

partial_function (option) py_merge_sort ::
  "addr \<Rightarrow> ('a \<Rightarrow> 'e + 'k::linorder) \<Rightarrow> 'a heap \<Rightarrow> (('e exn + addr) \<times> 'a heap) option" where
  "py_merge_sort data key h =
     (if length (h ! data) \<le> 1 then
        (let (copy, h1) = alloc (h ! data) h in Some (Inr copy, h1))
      else
        let mid = int (length (h ! data)) div 2;
            (a1, h1) = alloc (slice_to (h ! data) mid) h
        in Option.bind (py_merge_sort a1 key h1) (\<lambda>(r1, h2).
             case r1 of
               Inl e \<Rightarrow> Some (Inl e, h2)
             | Inr left \<Rightarrow>
                 let (a2, h3) = alloc (slice_from (h2 ! data) mid) h2
                 in Option.bind (py_merge_sort a2 key h3) (\<lambda>(r2, h4).
                      case r2 of
                        Inl e \<Rightarrow> Some (Inl e, h4)
                      | Inr right \<Rightarrow> py_merge left right key h4)))"

declare py_merge_sort.simps [code]

subsection \<open>Insertion sort\<close>

text \<open>
  The guard \<^verbatim>\<open>j >= 0 and key(result[j]) > key(current)\<close> of the inner loop: \<^verbatim>\<open>and\<close> does
  not evaluate its right operand when \<^verbatim>\<open>j >= 0\<close> is false; otherwise \<^verbatim>\<open>result[j]\<close>,
  \<^verbatim>\<open>key(result[j])\<close> and \<^verbatim>\<open>key(current)\<close> are evaluated in this order.
\<close>

definition inner_guard :: "('a \<Rightarrow> 'e + 'k::linorder) \<Rightarrow> 'a list \<Rightarrow> 'a \<Rightarrow> int \<Rightarrow> 'e exn + bool" where
  "inner_guard key result current j =
     (if j \<ge> 0 then
        (case py_get result j of Inl e \<Rightarrow> Inl e | Inr x \<Rightarrow>
         (case call_key key x of Inl e \<Rightarrow> Inl e | Inr kx \<Rightarrow>
          (case call_key key current of Inl e \<Rightarrow> Inl e | Inr kc \<Rightarrow> Inr (kx > kc))))
      else Inr False)"

text \<open>
  The assignment \<^verbatim>\<open>result[j + 1] = result[j]\<close> of the loop body.
\<close>

definition inner_shift :: "'a list \<Rightarrow> int \<Rightarrow> 'e exn + 'a list" where
  "inner_shift result j =
     (case py_get result j of Inl e \<Rightarrow> Inl e | Inr x \<Rightarrow> py_set result (j + 1) x)"

text \<open>
  The inner \<^verbatim>\<open>while\<close> loop; it changes the object at \<open>result\<close> in place and returns the
  value of \<^verbatim>\<open>j\<close> at its exit.
\<close>

partial_function (option) py_insertion_inner ::
  "('a \<Rightarrow> 'e + 'k::linorder) \<Rightarrow> addr \<Rightarrow> 'a \<Rightarrow> int \<Rightarrow> 'a heap \<Rightarrow> (('e exn + int) \<times> 'a heap) option" where
  "py_insertion_inner key result current j h =
     (case inner_guard key (h ! result) current j of
        Inl e \<Rightarrow> Some (Inl e, h)
      | Inr go \<Rightarrow>
          if go then
            (case inner_shift (h ! result) j of
               Inl e \<Rightarrow> Some (Inl e, h)
             | Inr xs \<Rightarrow> py_insertion_inner key result current (j - 1) (h[result := xs]))
          else Some (Inr j, h))"

declare py_insertion_inner.simps [code]

text \<open>
  The \<^verbatim>\<open>for\<close> loop over \<^verbatim>\<open>range(1, len(result))\<close>: the bound \<open>n\<close> is computed once,
  before the first round. Each round reads \<^verbatim>\<open>current = result[i]\<close>, runs the inner loop
  from \<^verbatim>\<open>j = i - 1\<close> and then assigns \<^verbatim>\<open>result[j + 1] = current\<close>.
\<close>

partial_function (option) py_insertion_loop ::
  "('a \<Rightarrow> 'e + 'k::linorder) \<Rightarrow> addr \<Rightarrow> int \<Rightarrow> int \<Rightarrow> 'a heap \<Rightarrow> (('e exn + unit) \<times> 'a heap) option" where
  "py_insertion_loop key result i n h =
     (if i < n then
        (case py_get (h ! result) i of
           Inl e \<Rightarrow> Some (Inl e, h)
         | Inr current \<Rightarrow>
             (case py_insertion_inner key result current (i - 1) h of
                None \<Rightarrow> None
              | Some (Inl e, h1) \<Rightarrow> Some (Inl e, h1)
              | Some (Inr j, h1) \<Rightarrow>
                  (case py_set (h1 ! result) (j + 1) current of
                     Inl e \<Rightarrow> Some (Inl e, h1)
                   | Inr xs \<Rightarrow> py_insertion_loop key result (i + 1) n (h1[result := xs]))))
      else Some (Inr (), h))"

declare py_insertion_loop.simps [code]

text \<open>
  \<^verbatim>\<open>insertion_sort\<close>: \<^verbatim>\<open>result = list(data)\<close> is a new object; the loop works on it.
\<close>

definition py_insertion_sort ::
  "addr \<Rightarrow> ('a \<Rightarrow> 'e + 'k::linorder) \<Rightarrow> 'a heap \<Rightarrow> (('e exn + addr) \<times> 'a heap) option" where
  "py_insertion_sort data key h =
     (let (result, h1) = alloc (h ! data) h
      in case py_insertion_loop key result 1 (int (length (h1 ! result))) h1 of
           None \<Rightarrow> None
         | Some (Inl e, h2) \<Rightarrow> Some (Inl e, h2)
         | Some (Inr u, h2) \<Rightarrow> Some (Inr result, h2))"

subsection \<open>Binary and linear search\<close>

text \<open>
  \<^verbatim>\<open>key(xs[i])\<close>, as both searches evaluate it.
\<close>

definition probe :: "'a list \<Rightarrow> ('a \<Rightarrow> 'e + 'k) \<Rightarrow> int \<Rightarrow> 'e exn + 'k" where
  "probe xs key i = (case py_get xs i of Inl e \<Rightarrow> Inl e | Inr x \<Rightarrow> call_key key x)"

text \<open>
  The loop of \<^verbatim>\<open>binary_search\<close>: \<^verbatim>\<open>mid_val = key(sorted_data[mid])\<close> may raise; then the
  comparison with \<^verbatim>\<open>==\<close> is made before the one with \<^verbatim>\<open><\<close>.
\<close>

partial_function (option) py_binary_loop ::
  "'a list \<Rightarrow> 'k \<Rightarrow> ('a \<Rightarrow> 'e + 'k::linorder) \<Rightarrow> int \<Rightarrow> int \<Rightarrow> ('e exn + int option) option" where
  "py_binary_loop sorted_data target key low high =
     (if low \<le> high then
        let mid = (low + high) div 2
        in case probe sorted_data key mid of
             Inl e \<Rightarrow> Some (Inl e)
           | Inr mid_val \<Rightarrow>
               if mid_val = target then Some (Inr (Some mid))
               else if mid_val < target then py_binary_loop sorted_data target key (mid + 1) high
               else py_binary_loop sorted_data target key low (mid - 1)
      else Some (Inr None))"

declare py_binary_loop.simps [code]

definition py_binary_search ::
  "'a list \<Rightarrow> 'k \<Rightarrow> ('a \<Rightarrow> 'e + 'k::linorder) \<Rightarrow> ('e exn + int option) option" where
  "py_binary_search sorted_data target key =
     py_binary_loop sorted_data target key 0 (int (length sorted_data) - 1)"

text \<open>
  \<^verbatim>\<open>for i, item in enumerate(data)\<close>: the list iterator yields \<^verbatim>\<open>data[i]\<close> for
  \<^verbatim>\<open>i = 0, 1, ...\<close> as long as \<^verbatim>\<open>i\<close> is less than the length of the list.
\<close>

partial_function (option) py_linear_loop ::
  "'a list \<Rightarrow> 'k \<Rightarrow> ('a \<Rightarrow> 'e + 'k) \<Rightarrow> int \<Rightarrow> ('e exn + int option) option" where
  "py_linear_loop data target key i =
     (if i < int (length data) then
        (case probe data key i of
           Inl e \<Rightarrow> Some (Inl e)
         | Inr v \<Rightarrow> if v = target then Some (Inr (Some i)) else py_linear_loop data target key (i + 1))
      else Some (Inr None))"

declare py_linear_loop.simps [code]

definition py_linear_search ::
  "'a list \<Rightarrow> 'k \<Rightarrow> ('a \<Rightarrow> 'e + 'k) \<Rightarrow> ('e exn + int option) option" where
  "py_linear_search data target key = py_linear_loop data target key 0"

subsection \<open>Predicates for stating what a run does\<close>

text \<open>
  \<open>agrees key k S\<close>: the total function \<open>k\<close> gives, on the items of \<open>S\<close>, the value that
  \<open>key\<close> returns wherever \<open>key\<close> returns one. \<open>raised_by key S err\<close>: the exception \<open>err\<close>
  is what \<open>key\<close> raises on some item of \<open>S\<close>.
\<close>

definition agrees :: "('a \<Rightarrow> 'e + 'k) \<Rightarrow> ('a \<Rightarrow> 'k) \<Rightarrow> 'a set \<Rightarrow> bool" where
  "agrees key k S \<longleftrightarrow> (\<forall>x\<in>S. \<forall>u. key x = Inr u \<longrightarrow> k x = u)"

definition raised_by :: "('a \<Rightarrow> 'e + 'k) \<Rightarrow> 'a set \<Rightarrow> 'e exn \<Rightarrow> bool" where
  "raised_by key S err \<longleftrightarrow> (\<exists>x\<in>S. \<exists>e. key x = Inl e \<and> err = KeyFailure e)"

text \<open>
  What a run of each loop and of each function establishes, relative to the functions on
  list values of the first part. These predicates only abbreviate the statements of the
  lemmas about runs.
\<close>

definition merge_loop_post ::
  "('a \<Rightarrow> 'e + 'k::linorder) \<Rightarrow> ('a \<Rightarrow> 'k) \<Rightarrow> 'a list \<Rightarrow> 'a list \<Rightarrow> int \<Rightarrow> int \<Rightarrow> 'a list
     \<Rightarrow> 'e exn + int \<times> int \<Rightarrow> 'a list \<Rightarrow> bool" where
  "merge_loop_post key k l r i j acc res out =
     (case res of
        Inl err \<Rightarrow> raised_by key (set l \<union> set r) err
      | Inr (i', j') \<Rightarrow>
          0 \<le> i' \<and> 0 \<le> j'
          \<and> out @ slice_from l i' @ slice_from r j' = acc @ merge_lists k (drop (nat i) l) (drop (nat j) r)
          \<and> (i < int (length l) \<and> j < int (length r) \<longrightarrow>
               (\<exists>u. key (l ! nat i) = Inr u) \<and> (\<exists>v. key (r ! nat j) = Inr v)))"

definition merge_post ::
  "('a \<Rightarrow> 'e + 'k::linorder) \<Rightarrow> ('a \<Rightarrow> 'k) \<Rightarrow> 'a list \<Rightarrow> 'a list \<Rightarrow> 'a heap
     \<Rightarrow> 'e exn + addr \<Rightarrow> 'a heap \<Rightarrow> bool" where
  "merge_post key k l r h res h' =
     (case res of
        Inl err \<Rightarrow> raised_by key (set l \<union> set r) err
      | Inr a \<Rightarrow>
          length h \<le> a \<and> a < length h' \<and> h' ! a = merge_lists k l r
          \<and> (l \<noteq> [] \<and> r \<noteq> [] \<longrightarrow> (\<exists>u. key (hd l) = Inr u) \<and> (\<exists>v. key (hd r) = Inr v)))"

definition sort_post ::
  "('a \<Rightarrow> 'e + 'k::linorder) \<Rightarrow> 'a list \<Rightarrow> 'a list \<Rightarrow> 'a heap \<Rightarrow> 'e exn + addr \<Rightarrow> 'a heap \<Rightarrow> bool" where
  "sort_post key xs expected h res h' =
     (case res of
        Inl err \<Rightarrow> raised_by key (set xs) err
      | Inr a \<Rightarrow>
          length h \<le> a \<and> a < length h' \<and> h' ! a = expected
          \<and> (2 \<le> length xs \<longrightarrow> (\<forall>x\<in>set xs. \<exists>u. key x = Inr u)))"

definition inner_post ::
  "('a \<Rightarrow> 'e + 'k::linorder) \<Rightarrow> ('a \<Rightarrow> 'k) \<Rightarrow> 'a list \<Rightarrow> 'a \<Rightarrow> int \<Rightarrow> 'e exn + int \<Rightarrow> 'a list \<Rightarrow> bool" where
  "inner_post key k xs current j res out =
     (case res of
        Inl err \<Rightarrow> raised_by key (insert current (set xs)) err
      | Inr j' \<Rightarrow>
          - 1 \<le> j' \<and> j' \<le> j \<and> length out = length xs
          \<and> out[nat (j' + 1) := current] = insertion_inner k current j xs
          \<and> (0 \<le> j \<longrightarrow> (\<exists>u. key (xs ! nat j) = Inr u) \<and> (\<exists>v. key current = Inr v)))"

definition loop_post ::
  "('a \<Rightarrow> 'e + 'k::linorder) \<Rightarrow> ('a \<Rightarrow> 'k) \<Rightarrow> 'a list \<Rightarrow> int \<Rightarrow> int \<Rightarrow> 'e exn + unit \<Rightarrow> 'a list \<Rightarrow> bool" where
  "loop_post key k xs i n res out =
     (case res of
        Inl err \<Rightarrow> raised_by key (set xs) err
      | Inr u \<Rightarrow>
          out = foldl (\<lambda>result i. insertion_inner k (result ! i) (int i - 1) result) xs [nat i ..< nat n]
          \<and> (\<forall>m. i \<le> m \<and> m < n \<longrightarrow> (\<exists>u. key (xs ! nat m) = Inr u))
          \<and> (i < n \<longrightarrow> (\<exists>u. key (xs ! nat (i - 1)) = Inr u)))"

definition search_post ::
  "('a \<Rightarrow> 'e + 'k) \<Rightarrow> 'a list \<Rightarrow> int option \<Rightarrow> 'e exn + int option \<Rightarrow> bool" where
  "search_post key xs expected res =
     (case res of Inl err \<Rightarrow> raised_by key (set xs) err | Inr r \<Rightarrow> r = expected)"

subsection \<open>The key calls of a run, in their order\<close>

text \<open>
  The sequence of the items on which a sort calls the key function, in the order of the
  calls, written for a key function \<open>k\<close> that returns on every item. A run with a key
  function that raises makes these calls, with \<open>k\<close> in agreement with it, up to the first call
  that raises; this is what the lemmas \<open>py_merge_sort_ends\<close> and \<open>py_insertion_sort_ends\<close>
  prove.
\<close>











section \<open>Properties of the functions on list values\<close>

subsection \<open>Merge sort\<close>

lemma merge_lists_Nil2 [simp]: "merge_lists key xs [] = xs"
  by (cases xs) simp_all

lemma merge_loop_eq:
  "merge_loop left right key i j result = result @ merge_lists key (drop i left) (drop j right)"
proof (induction left right key i j result rule: merge_loop.induct)
  case (1 left right key i j result)
  show ?case
  proof (cases "i < length left \<and> j < length right")
    case False
    then show ?thesis
      by (subst merge_loop.simps) auto
  next
    case True
    then have dl: "drop i left = left ! i # drop (Suc i) left"
      and dr: "drop j right = right ! j # drop (Suc j) right"
      by (simp_all add: Cons_nth_drop_Suc)
    show ?thesis
    proof (cases "key (left ! i) \<le> key (right ! j)")
      case le: True
      have "merge_loop left right key i j result
              = merge_loop left right key (i + 1) j (result @ [left ! i])"
        using True le by (subst merge_loop.simps) simp
      also have "\<dots> = (result @ [left ! i]) @ merge_lists key (drop (i + 1) left) (drop j right)"
        using "1.IH"(1) True le by blast
      also have "\<dots> = result @ merge_lists key (drop i left) (drop j right)"
        using le by (simp add: dl dr)
      finally show ?thesis .
    next
      case gt: False
      have "merge_loop left right key i j result
              = merge_loop left right key i (j + 1) (result @ [right ! j])"
        using True gt by (subst merge_loop.simps) simp
      also have "\<dots> = (result @ [right ! j]) @ merge_lists key (drop i left) (drop (j + 1) right)"
        using "1.IH"(2) True gt by blast
      also have "\<dots> = result @ merge_lists key (drop i left) (drop j right)"
        using gt by (simp add: dl dr)
      finally show ?thesis .
    qed
  qed
qed

lemma merge_eq: "merge left right key = merge_lists key left right"
  by (simp add: merge_def merge_loop_eq)

lemma mset_merge_lists: "mset (merge_lists key xs ys) = mset xs + mset ys"
  by (induction key xs ys rule: merge_lists.induct) auto

lemma set_merge_lists: "set (merge_lists key xs ys) = set xs \<union> set ys"
  by (induction key xs ys rule: merge_lists.induct) auto

lemma sorted_merge_lists:
  "sorted (map key xs) \<Longrightarrow> sorted (map key ys) \<Longrightarrow> sorted (map key (merge_lists key xs ys))"
proof (induction key xs ys rule: merge_lists.induct)
  case (3 key x xs y ys)
  from "3.prems" have sx: "sorted (map key xs)" and sy: "sorted (map key ys)"
    and bx: "\<forall>z\<in>set xs. key x \<le> key z" and by': "\<forall>z\<in>set ys. key y \<le> key z"
    by simp_all
  show ?case
  proof (cases "key x \<le> key y")
    case True
    have "\<forall>z\<in>set (merge_lists key xs (y # ys)). key x \<le> key z"
      using True bx by' by (auto simp: set_merge_lists intro: order_trans)
    moreover have "sorted (map key (merge_lists key xs (y # ys)))"
      using "3.IH"(1) [OF True sx "3.prems"(2)] .
    ultimately show ?thesis using True by simp
  next
    case False
    then have yx: "key y \<le> key x" by simp
    have "\<forall>z\<in>set (merge_lists key (x # xs) ys). key y \<le> key z"
      using yx bx by' by (auto simp: set_merge_lists intro: order_trans)
    moreover have "sorted (map key (merge_lists key (x # xs) ys))"
      using "3.IH"(2) [OF False "3.prems"(1) sy] .
    ultimately show ?thesis using False by simp
  qed
qed simp_all

lemma filter_merge_lists:
  "sorted (map key xs) \<Longrightarrow>
   filter (\<lambda>x. key x = v) (merge_lists key xs ys) = filter (\<lambda>x. key x = v) xs @ filter (\<lambda>x. key x = v) ys"
proof (induction key xs ys rule: merge_lists.induct)
  case (3 key x xs y ys)
  from "3.prems" have sx: "sorted (map key xs)"
    and bx: "\<forall>z\<in>set xs. key x \<le> key z"
    by simp_all
  show ?case
  proof (cases "key x \<le> key y")
    case True
    with "3.IH"(1) [OF True sx] show ?thesis by simp
  next
    case False
    note ih = "3.IH"(2) [OF False "3.prems"]
    show ?thesis
    proof (cases "key y = v")
      case yv: True
      have "\<forall>z\<in>set (x # xs). key z \<noteq> v"
        using False bx yv by auto
      then have "filter (\<lambda>x. key x = v) (x # xs) = []"
        by (simp only: filter_empty_conv)
      with ih False yv show ?thesis by simp
    next
      case yv: False
      with ih False show ?thesis by simp
    qed
  qed
qed simp_all

lemma mset_merge_sort: "mset (merge_sort data key) = mset data"
proof (induction data key rule: merge_sort.induct)
  case (1 data key)
  show ?case
  proof (cases "length data \<le> 1")
    case True
    then show ?thesis by (subst merge_sort.simps) simp
  next
    case False
    have "mset (merge_sort data key)
            = mset (merge_sort (take (length data div 2) data) key)
              + mset (merge_sort (drop (length data div 2) data) key)"
      using False by (subst merge_sort.simps) (simp add: Let_def merge_eq mset_merge_lists)
    also have "\<dots> = mset (take (length data div 2) data) + mset (drop (length data div 2) data)"
      using "1.IH" False by simp
    also have "\<dots> = mset data"
      by (simp flip: mset_append)
    finally show ?thesis .
  qed
qed

lemma sorted_merge_sort: "sorted (map key (merge_sort data key))"
proof (induction data key rule: merge_sort.induct)
  case (1 data key)
  show ?case
  proof (cases "length data \<le> 1")
    case True
    then have "length (map key data) \<le> 1" by simp
    then have "sorted (map key data)"
      by (cases "map key data") (auto simp: le_Suc_eq)
    with True show ?thesis by (subst merge_sort.simps) simp
  next
    case False
    with "1.IH" show ?thesis
      by (subst merge_sort.simps) (simp add: Let_def merge_eq sorted_merge_lists)
  qed
qed

lemma filter_merge_sort:
  "filter (\<lambda>x. key x = v) (merge_sort data key) = filter (\<lambda>x. key x = v) data"
proof (induction data key rule: merge_sort.induct)
  case (1 data key)
  show ?case
  proof (cases "length data \<le> 1")
    case True
    then show ?thesis by (subst merge_sort.simps) simp
  next
    case False
    have "filter (\<lambda>x. key x = v) (merge_sort data key)
            = filter (\<lambda>x. key x = v) (merge_sort (take (length data div 2) data) key)
              @ filter (\<lambda>x. key x = v) (merge_sort (drop (length data div 2) data) key)"
      using False
      by (subst merge_sort.simps) (simp add: Let_def merge_eq filter_merge_lists sorted_merge_sort)
    also have "\<dots> = filter (\<lambda>x. key x = v) (take (length data div 2) data)
                     @ filter (\<lambda>x. key x = v) (drop (length data div 2) data)"
      using "1.IH" False by simp
    also have "\<dots> = filter (\<lambda>x. key x = v) data"
      by (simp flip: filter_append)
    finally show ?thesis .
  qed
qed

lemma merge_sort_eq_sort_key: "merge_sort data key = sort_key key data"
proof (rule properties_for_sort_key [symmetric])
  show "mset (merge_sort data key) = mset data"
    by (rule mset_merge_sort)
  show "sorted (map key (merge_sort data key))"
    by (rule sorted_merge_sort)
  fix x
  have "(\<lambda>z. key x = key z) = (\<lambda>z. key z = key x)" by auto
  then show "filter (\<lambda>z. key x = key z) (merge_sort data key) = filter (\<lambda>z. key x = key z) data"
    by (simp only: filter_merge_sort)
qed

subsection \<open>Insertion sort\<close>

lemma length_shift_in [simp]: "length (shift_in key x ys) = Suc (length ys)"
  by (induction ys) simp_all

lemma insertion_inner_eq:
  "insertion_inner key current (int (length pre) - 1) (pre @ h # rest)
     = rev (shift_in key current (rev pre)) @ rest"
proof (induction pre arbitrary: h rest rule: rev_induct)
  case Nil
  show ?case by (subst insertion_inner.simps) simp
next
  case (snoc y pre)
  have at: "(pre @ [y]) @ h # rest = pre @ y # h # rest" by simp
  have rd: "(pre @ y # h # rest) ! length pre = y" by simp
  show ?case
  proof (cases "key y > key current")
    case True
    have "(pre @ y # h # rest)[Suc (length pre) := y] = pre @ y # y # rest"
      by (simp add: list_update_append)
    then have "insertion_inner key current (int (length (pre @ [y])) - 1) ((pre @ [y]) @ h # rest)
            = insertion_inner key current (int (length pre) - 1) (pre @ y # (y # rest))"
      using True rd
      by (subst insertion_inner.simps) (simp add: nat_add_distrib)
    also have "\<dots> = rev (shift_in key current (rev pre)) @ y # rest"
      by (rule snoc.IH)
    finally show ?thesis using True by simp
  next
    case False
    have "(pre @ y # h # rest)[Suc (length pre) := current] = pre @ y # current # rest"
      by (simp add: list_update_append)
    then have "insertion_inner key current (int (length (pre @ [y])) - 1) ((pre @ [y]) @ h # rest)
            = pre @ y # current # rest"
      using False rd
      by (subst insertion_inner.simps) (simp add: nat_add_distrib)
    then show ?thesis using False by simp
  qed
qed

lemma insertion_fold_eq:
  "1 \<le> m \<Longrightarrow> m \<le> length data \<Longrightarrow>
   foldl (\<lambda>result i. insertion_inner key (result ! i) (int i - 1) result) data [1 ..< m]
     = rev (insert_all key [] (take m data)) @ drop m data"
proof (induction m)
  case 0
  then show ?case by simp
next
  case (Suc m)
  show ?case
  proof (cases "m = 0")
    case True
    with Suc.prems obtain x xs where "data = x # xs" by (cases data) auto
    with True show ?thesis by (simp add: insert_all_def)
  next
    case False
    let ?f = "\<lambda>result i. insertion_inner key (result ! i) (int i - 1) result"
    let ?A = "rev (insert_all key [] (take m data))"
    from False Suc.prems have m: "1 \<le> m" "m < length data" by simp_all
    have lenA: "length ?A = m"
      using m(2) by (induction m) (simp_all add: insert_all_def take_Suc_conv_app_nth)
    have ih: "foldl ?f data [1 ..< m] = ?A @ drop m data"
      using Suc.IH m by simp
    have dm: "drop m data = data ! m # drop (Suc m) data"
      using m(2) by (simp add: Cons_nth_drop_Suc)
    have cur: "(?A @ drop m data) ! m = data ! m"
      using lenA dm by (simp add: nth_append)
    have "foldl ?f data [1 ..< Suc m] = ?f (foldl ?f data [1 ..< m]) m"
      using m(1) by simp
    also have "\<dots> = insertion_inner key (data ! m) (int (length ?A) - 1) (?A @ data ! m # drop (Suc m) data)"
      unfolding ih cur lenA using dm by simp
    also have "\<dots> = rev (shift_in key (data ! m) (rev ?A)) @ drop (Suc m) data"
      by (rule insertion_inner_eq)
    also have "shift_in key (data ! m) (rev ?A) = insert_all key [] (take (Suc m) data)"
      using m(2) by (simp add: insert_all_def take_Suc_conv_app_nth)
    finally show ?thesis .
  qed
qed

lemma insertion_sort_eq: "insertion_sort data key = rev (insert_all key [] data)"
proof (cases "data = []")
  case True
  then show ?thesis by (simp add: insertion_sort_def insert_all_def)
next
  case False
  then have "1 \<le> length data" by (cases data) simp_all
  from insertion_fold_eq [OF this order_refl, of key]
  show ?thesis by (simp add: insertion_sort_def)
qed

lemma mset_shift_in: "mset (shift_in key x ys) = add_mset x (mset ys)"
  by (induction ys) simp_all

lemma set_shift_in: "set (shift_in key x ys) = insert x (set ys)"
  by (induction ys) auto

lemma mset_insert_all: "mset (insert_all key acc xs) = mset acc + mset xs"
  unfolding insert_all_def by (induction xs arbitrary: acc) (simp_all add: mset_shift_in)

lemma sorted_shift_in:
  "sorted (map key (rev ys)) \<Longrightarrow> sorted (map key (rev (shift_in key x ys)))"
proof (induction ys)
  case Nil
  show ?case by simp
next
  case (Cons y ys)
  from Cons.prems have s: "sorted (map key (rev ys))" and b: "\<forall>z\<in>set ys. key z \<le> key y"
    by (auto simp: sorted_append)
  show ?case
  proof (cases "key y > key x")
    case True
    have "\<forall>z\<in>set (shift_in key x ys). key z \<le> key y"
      using True b by (auto simp: set_shift_in)
    with True Cons.IH [OF s] show ?thesis by (auto simp: sorted_append)
  next
    case False
    then have yx: "key y \<le> key x" by simp
    have "\<forall>z\<in>set ys. key z \<le> key x"
      using b yx by (auto intro: order_trans)
    with False yx s b show ?thesis by (auto simp: sorted_append)
  qed
qed

lemma sorted_insert_all:
  "sorted (map key (rev acc)) \<Longrightarrow> sorted (map key (rev (insert_all key acc xs)))"
  unfolding insert_all_def by (induction xs arbitrary: acc) (simp_all add: sorted_shift_in)

lemma filter_shift_in:
  "filter (\<lambda>z. key z = v) (rev (shift_in key x ys))
     = filter (\<lambda>z. key z = v) (rev ys) @ filter (\<lambda>z. key z = v) [x]"
  by (induction ys) auto

lemma filter_insert_all:
  "filter (\<lambda>z. key z = v) (rev (insert_all key acc xs))
     = filter (\<lambda>z. key z = v) (rev acc) @ filter (\<lambda>z. key z = v) xs"
  unfolding insert_all_def
proof (induction xs arbitrary: acc)
  case Nil
  show ?case by simp
next
  case (Cons x xs)
  have "filter (\<lambda>z. key z = v) (rev (foldl (\<lambda>acc x. shift_in key x acc) (shift_in key x acc) xs))
          = filter (\<lambda>z. key z = v) (rev (shift_in key x acc)) @ filter (\<lambda>z. key z = v) xs"
    by (rule Cons.IH)
  then show ?case by (simp add: filter_shift_in)
qed

lemma mset_insertion_sort: "mset (insertion_sort data key) = mset data"
  by (simp add: insertion_sort_eq mset_insert_all)

lemma sorted_insertion_sort: "sorted (map key (insertion_sort data key))"
  by (simp add: insertion_sort_eq sorted_insert_all)

lemma filter_insertion_sort:
  "filter (\<lambda>x. key x = v) (insertion_sort data key) = filter (\<lambda>x. key x = v) data"
  by (simp add: insertion_sort_eq filter_insert_all)

lemma insertion_sort_eq_sort_key: "insertion_sort data key = sort_key key data"
proof (rule properties_for_sort_key [symmetric])
  show "mset (insertion_sort data key) = mset data"
    by (rule mset_insertion_sort)
  show "sorted (map key (insertion_sort data key))"
    by (rule sorted_insertion_sort)
  fix x
  have "(\<lambda>z. key x = key z) = (\<lambda>z. key z = key x)" by auto
  then show "filter (\<lambda>z. key x = key z) (insertion_sort data key) = filter (\<lambda>z. key x = key z) data"
    by (simp only: filter_insertion_sort)
qed

subsection \<open>Binary and linear search\<close>

lemma binary_loop_sound:
  "binary_loop xs t key low high = Some i \<Longrightarrow> 0 \<le> low \<Longrightarrow> high < int (length xs) \<Longrightarrow>
   low \<le> i \<and> i \<le> high \<and> key (xs ! nat i) = t"
proof (induction xs t key low high rule: binary_loop.induct)
  case (1 xs t key low high)
  let ?mid = "(low + high) div 2"
  from "1.prems"(1) have lh: "low \<le> high"
    by (subst (asm) binary_loop.simps) (simp split: if_splits)
  then have mid: "low \<le> ?mid" "?mid \<le> high" by linarith+
  show ?case
  proof (cases "key (xs ! nat ?mid) = t")
    case True
    with lh "1.prems"(1) have "i = ?mid"
      by (subst (asm) binary_loop.simps) (simp add: Let_def)
    with True mid show ?thesis by simp
  next
    case ne: False
    show ?thesis
    proof (cases "key (xs ! nat ?mid) < t")
      case True
      with lh ne "1.prems"(1) have "binary_loop xs t key (?mid + 1) high = Some i"
        by (subst (asm) binary_loop.simps) (simp add: Let_def)
      from "1.IH"(1) [OF lh refl refl ne True this] "1.prems"(2,3) mid
      show ?thesis by linarith
    next
      case False
      with lh ne "1.prems"(1) have "binary_loop xs t key low (?mid - 1) = Some i"
        by (subst (asm) binary_loop.simps) (simp add: Let_def)
      from "1.IH"(2) [OF lh refl refl ne False this] "1.prems"(2,3) mid
      show ?thesis by linarith
    qed
  qed
qed

lemma binary_loop_complete:
  "binary_loop xs t key low high = None \<Longrightarrow> sorted (map key xs) \<Longrightarrow>
   0 \<le> low \<Longrightarrow> high < int (length xs) \<Longrightarrow> low \<le> i \<Longrightarrow> i \<le> high \<Longrightarrow>
   key (xs ! nat i) \<noteq> t"
proof (induction xs t key low high rule: binary_loop.induct)
  case (1 xs t key low high)
  let ?mid = "(low + high) div 2"
  from "1.prems" have lh: "low \<le> high" by simp
  then have mid: "low \<le> ?mid" "?mid \<le> high" by linarith+
  have mono: "key (xs ! a) \<le> key (xs ! b)" if "a \<le> b" "b < length xs" for a b
    using sorted_nth_mono [OF "1.prems"(2), of a b] that by simp
  have ne: "key (xs ! nat ?mid) \<noteq> t"
    using lh "1.prems"(1) by (subst (asm) binary_loop.simps) (auto simp: Let_def split: if_splits)
  show ?case
  proof (cases "key (xs ! nat ?mid) < t")
    case True
    with lh ne "1.prems"(1) have rec: "binary_loop xs t key (?mid + 1) high = None"
      by (subst (asm) binary_loop.simps) (simp add: Let_def)
    show ?thesis
    proof (cases "i \<le> ?mid")
      case le: True
      have "key (xs ! nat i) \<le> key (xs ! nat ?mid)"
        using le "1.prems"(3,4,5) mid by (intro mono) linarith+
      with True show ?thesis by simp
    next
      case False
      with "1.IH"(1) [OF lh refl refl ne True rec "1.prems"(2)] "1.prems"(3,4,6) mid
      show ?thesis by simp
    qed
  next
    case False
    with lh ne "1.prems"(1) have rec: "binary_loop xs t key low (?mid - 1) = None"
      by (subst (asm) binary_loop.simps) (simp add: Let_def)
    from False ne have gt: "t < key (xs ! nat ?mid)" by simp
    show ?thesis
    proof (cases "?mid \<le> i")
      case ge: True
      have "key (xs ! nat ?mid) \<le> key (xs ! nat i)"
        using ge "1.prems"(3,4,6) mid by (intro mono) linarith+
      with gt show ?thesis by simp
    next
      case lt: False
      with "1.IH"(2) [OF lh refl refl ne False rec "1.prems"(2)] "1.prems"(3,4,5) mid
      show ?thesis by simp
    qed
  qed
qed

lemma binary_search_sound:
  "binary_search xs t key = Some i \<Longrightarrow> 0 \<le> i \<and> i < int (length xs) \<and> key (xs ! nat i) = t"
  using binary_loop_sound [of xs t key 0 "int (length xs) - 1" i]
  by (simp add: binary_search_def)

lemma binary_search_complete:
  assumes "binary_search xs t key = None" and "sorted (map key xs)"
  shows "\<forall>x\<in>set xs. key x \<noteq> t"
proof
  fix x assume "x \<in> set xs"
  then obtain n where n: "n < length xs" "xs ! n = x"
    by (auto simp: in_set_conv_nth)
  from binary_loop_complete [of xs t key 0 "int (length xs) - 1" "int n"] assms n
  show "key x \<noteq> t" by (simp add: binary_search_def)
qed

lemma linear_loop_Some:
  "linear_loop t key i xs = Some r \<Longrightarrow>
   i \<le> r \<and> r - i < length xs \<and> key (xs ! (r - i)) = t \<and> (\<forall>j < r - i. key (xs ! j) \<noteq> t)"
proof (induction xs arbitrary: i)
  case Nil
  then show ?case by simp
next
  case (Cons x xs)
  show ?case
  proof (cases "key x = t")
    case True
    with Cons.prems show ?thesis by simp
  next
    case False
    with Cons.prems have "linear_loop t key (i + 1) xs = Some r" by simp
    from Cons.IH [OF this]
    have r: "i + 1 \<le> r" "r - (i + 1) < length xs" "key (xs ! (r - (i + 1))) = t"
      "\<forall>j < r - (i + 1). key (xs ! j) \<noteq> t" by simp_all
    from r(1) have eq: "r - i = Suc (r - (i + 1))" by simp
    have "\<forall>j < r - i. key ((x # xs) ! j) \<noteq> t"
    proof (intro allI impI)
      fix j assume "j < r - i"
      then show "key ((x # xs) ! j) \<noteq> t"
        using False r(4) eq by (cases j) simp_all
    qed
    with r eq show ?thesis by simp
  qed
qed

lemma linear_loop_None:
  "linear_loop t key i xs = None \<Longrightarrow> \<forall>x\<in>set xs. key x \<noteq> t"
  by (induction xs arbitrary: i) (auto split: if_splits)

section \<open>The claims about the functions on list values\<close>

text \<open>
  C1. For every list \<open>S\<close> and key function \<open>k\<close>, \<open>merge_sort S k\<close> and
  \<open>insertion_sort S k\<close> each hold exactly the items of \<open>S\<close>, with their multiplicities,
  and are ordered non-decreasingly by \<open>k\<close>: the keys of the result form a sorted list, and
  at every pair of adjacent positions \<open>i\<close>, \<open>i + 1\<close> of the result the key at \<open>i\<close> is at most
  the key at \<open>i + 1\<close>.
\<close>

theorem sorts_permutation_ordered:
  fixes S :: "'a list" and k :: "'a \<Rightarrow> 'k::linorder"
  shows "mset (merge_sort S k) = mset S \<and> sorted (map k (merge_sort S k))
   \<and> (\<forall>i. i + 1 < length (merge_sort S k) \<longrightarrow> k (merge_sort S k ! i) \<le> k (merge_sort S k ! (i + 1)))
   \<and> mset (insertion_sort S k) = mset S \<and> sorted (map k (insertion_sort S k))
   \<and> (\<forall>i. i + 1 < length (insertion_sort S k) \<longrightarrow>
          k (insertion_sort S k ! i) \<le> k (insertion_sort S k ! (i + 1)))"
proof -
  have adj: "\<forall>i. i + 1 < length xs \<longrightarrow> k (xs ! i) \<le> k (xs ! (i + 1))"
    if "sorted (map k xs)" for xs :: "'a list"
  proof (intro allI impI)
    fix i assume i: "i + 1 < length xs"
    from sorted_nth_mono [OF that, of i "i + 1"] i
    show "k (xs ! i) \<le> k (xs ! (i + 1))" by simp
  qed
  have sm: "sorted (map k (merge_sort S k))" by (rule sorted_merge_sort)
  have si: "sorted (map k (insertion_sort S k))" by (rule sorted_insertion_sort)
  from sm si adj [OF sm] adj [OF si] mset_merge_sort [of S k] mset_insertion_sort [of S k]
  show ?thesis by blast
qed

theorem sorts_permutation_ordered_witness:
  "(0::nat) + 1 < length (merge_sort [3, 1, 2 :: nat] id)
   \<and> (0::nat) + 1 < length (insertion_sort [3, 1, 2 :: nat] id)
   \<and> mset (merge_sort [3, 1, 2 :: nat] id) = mset [3, 1, 2]
   \<and> id (merge_sort [3, 1, 2 :: nat] id ! 0) \<le> id (merge_sort [3, 1, 2 :: nat] id ! (0 + 1))
   \<and> mset (insertion_sort [3, 1, 2 :: nat] id) = mset [3, 1, 2]
   \<and> id (insertion_sort [3, 1, 2 :: nat] id ! 0) \<le> id (insertion_sort [3, 1, 2 :: nat] id ! (0 + 1))"
proof -
  have m: "merge_sort [3, 1, 2 :: nat] id = [1, 2, 3]"
    by (simp add: merge_sort.simps merge_def merge_loop.simps)
  have i: "insertion_sort [3, 1, 2 :: nat] id = [1, 2, 3]"
    by (simp add: insertion_sort_def insertion_inner.simps upt_rec)
  have hm: "(0::nat) + 1 < length (merge_sort [3, 1, 2 :: nat] id)"
    unfolding m by simp
  have hi: "(0::nat) + 1 < length (insertion_sort [3, 1, 2 :: nat] id)"
    unfolding i by simp
  from sorts_permutation_ordered [of "[3, 1, 2 :: nat]" id] hm hi
  show ?thesis by blast
qed

text \<open>
  C2. Both sorts are stable. For every key value \<open>v\<close>, the items of key \<open>v\<close> stand in the
  result in the order in which they stand in the input: the sublist of the items with key
  \<open>v\<close> is the same before and after. So two items with equal keys never change their relative
  order. The two mechanisms named by the claim are stated too: on a tie between the heads,
  \<open>merge\<close> takes the head of the left list first; and the inner loop of the insertion sort
  does not shift an element whose key equals the key of the held element.
\<close>

theorem sorts_stable:
  "filter (\<lambda>x. k x = v) (merge_sort S k) = filter (\<lambda>x. k x = v) S
   \<and> filter (\<lambda>x. k x = v) (insertion_sort S k) = filter (\<lambda>x. k x = v) S
   \<and> (k x = k y \<longrightarrow> merge (x # xs) (y # ys) k = x # merge xs (y # ys) k)
   \<and> (k y = k current \<longrightarrow>
        insertion_inner k current (int (length pre)) (pre @ y # h # rest) = pre @ y # current # rest)"
proof -
  have tie: "insertion_inner k current (int (length pre)) (pre @ y # h # rest)
               = pre @ y # current # rest" if "k y = k current"
  proof -
    have "(pre @ y # h # rest) ! length pre = y" by simp
    moreover have "(pre @ y # h # rest)[Suc (length pre) := current] = pre @ y # current # rest"
      by (simp add: list_update_append)
    ultimately show ?thesis
      using that by (subst insertion_inner.simps) (simp add: nat_add_distrib)
  qed
  show ?thesis
    using tie by (simp add: filter_merge_sort filter_insertion_sort merge_eq)
qed

theorem sorts_stable_witness:
  "fst (2::nat, ''x'') = fst (2::nat, ''y'') \<and> fst (2::nat, ''y'') = fst (2::nat, ''z'')
   \<and> filter (\<lambda>x. fst x = 2) (merge_sort [(2::nat, ''x''), (1, ''a''), (2, ''y''), (1, ''b'')] fst)
       = filter (\<lambda>x. fst x = 2) [(2::nat, ''x''), (1, ''a''), (2, ''y''), (1, ''b'')]
   \<and> filter (\<lambda>x. fst x = 2) (insertion_sort [(2::nat, ''x''), (1, ''a''), (2, ''y''), (1, ''b'')] fst)
       = filter (\<lambda>x. fst x = 2) [(2::nat, ''x''), (1, ''a''), (2, ''y''), (1, ''b'')]
   \<and> merge ((2::nat, ''x'') # [(3, ''c'')]) ((2, ''y'') # [(4, ''d'')]) fst
       = (2, ''x'') # merge [(3, ''c'')] ((2, ''y'') # [(4, ''d'')]) fst
   \<and> insertion_inner fst (2::nat, ''z'') (int (length [(1::nat, ''a'')]))
         ([(1::nat, ''a'')] @ (2, ''y'') # (2, ''z'') # [(5, ''e'')])
       = [(1::nat, ''a'')] @ (2, ''y'') # (2, ''z'') # [(5, ''e'')]"
proof -
  have e1: "fst (2::nat, ''x'') = fst (2::nat, ''y'')" by simp
  have e2: "fst (2::nat, ''y'') = fst (2::nat, ''z'')" by simp
  from sorts_stable [where k = fst and v = 2
      and S = "[(2::nat, ''x''), (1, ''a''), (2, ''y''), (1, ''b'')]"
      and x = "(2::nat, ''x'')" and y = "(2::nat, ''y'')"
      and xs = "[(3::nat, ''c'')]" and ys = "[(4::nat, ''d'')]"
      and current = "(2::nat, ''z'')" and pre = "[(1::nat, ''a'')]" and h = "(2::nat, ''z'')"
      and rest = "[(5::nat, ''e'')]"] e1 e2
  show ?thesis by blast
qed

text \<open>
  C3. On a list that is non-decreasing under the key, \<open>binary_search\<close> returns an index
  within the list whose element has the target as its key whenever some element has, and
  returns \<open>None\<close> (not found) when no element has. On \<open>[1, 3, 5, 7, 9]\<close> with the identity
  key it returns index 2 for the target 5 and \<open>None\<close> for the target 4.
\<close>

theorem binary_search_correct:
  assumes "sorted (map k xs)"
  shows "(t \<in> k ` set xs \<longrightarrow>
            (\<exists>i. binary_search xs t k = Some i \<and> 0 \<le> i \<and> i < int (length xs) \<and> k (xs ! nat i) = t))
         \<and> (t \<notin> k ` set xs \<longrightarrow> binary_search xs t k = None)
         \<and> binary_search [1, 3, 5, 7, 9 :: int] 5 (\<lambda>x. x) = Some 2
         \<and> binary_search [1, 3, 5, 7, 9 :: int] 4 (\<lambda>x. x) = None"
proof (intro conjI impI)
  assume "t \<in> k ` set xs"
  with binary_search_complete [OF _ assms, of t] obtain i where "binary_search xs t k = Some i"
    by (cases "binary_search xs t k") auto
  with binary_search_sound [OF this]
  show "\<exists>i. binary_search xs t k = Some i \<and> 0 \<le> i \<and> i < int (length xs) \<and> k (xs ! nat i) = t"
    by blast
next
  assume no: "t \<notin> k ` set xs"
  show "binary_search xs t k = None"
  proof (cases "binary_search xs t k")
    case (Some i)
    from binary_search_sound [OF this] have "k (xs ! nat i) = t" "nat i < length xs"
      by (simp_all add: nat_less_iff)
    with no show ?thesis by (metis image_eqI nth_mem)
  qed simp
next
  show "binary_search [1, 3, 5, 7, 9 :: int] 5 (\<lambda>x. x) = Some 2"
    by (simp add: binary_search_def binary_loop.simps)
  show "binary_search [1, 3, 5, 7, 9 :: int] 4 (\<lambda>x. x) = None"
    by (simp add: binary_search_def binary_loop.simps)
qed

theorem binary_search_correct_witness:
  "sorted (map (\<lambda>x. x) [1, 3, 5, 7, 9 :: int])
   \<and> (7::int) \<in> (\<lambda>x. x) ` set [1, 3, 5, 7, 9]
   \<and> (\<exists>i. binary_search [1, 3, 5, 7, 9 :: int] 7 (\<lambda>x. x) = Some i \<and> 0 \<le> i
          \<and> i < int (length [1, 3, 5, 7, 9 :: int]) \<and> [1, 3, 5, 7, 9 :: int] ! nat i = 7)
   \<and> (6::int) \<notin> (\<lambda>x. x) ` set [1, 3, 5, 7, 9]
   \<and> binary_search [1, 3, 5, 7, 9 :: int] 6 (\<lambda>x. x) = None"
proof -
  have s: "sorted (map (\<lambda>x. x) [1, 3, 5, 7, 9 :: int])" by simp
  have a: "(7::int) \<in> (\<lambda>x. x) ` set [1, 3, 5, 7, 9]" by simp
  have b: "(6::int) \<notin> (\<lambda>x. x) ` set [1, 3, 5, 7, 9]" by simp
  from binary_search_correct [OF s, of 7] binary_search_correct [OF s, of 6] s a b
  show ?thesis by blast
qed

text \<open>
  C4. Without any assumption on the order of the list, \<open>linear_search\<close> returns the lowest
  index whose element has the target as its key when there is one, and \<open>None\<close> (not found)
  otherwise. On \<open>[("a", 1), ("b", 2), ("c", 1)]\<close> with the second component as key and
  target 1 it returns index 0.
\<close>

theorem linear_search_first_match:
  "(t \<in> k ` set xs \<longrightarrow>
      (\<exists>i. linear_search xs t k = Some i \<and> i < length xs \<and> k (xs ! i) = t
           \<and> (\<forall>j<i. k (xs ! j) \<noteq> t)))
   \<and> (t \<notin> k ` set xs \<longrightarrow> linear_search xs t k = None)
   \<and> linear_search [(''a'', 1 :: int), (''b'', 2), (''c'', 1)] 1 snd = Some 0"
proof (intro conjI impI)
  assume "t \<in> k ` set xs"
  with linear_loop_None [of t k 0 xs] obtain i where i: "linear_search xs t k = Some i"
    by (cases "linear_search xs t k") (auto simp: linear_search_def)
  from linear_loop_Some [of t k 0 xs i] i
  show "\<exists>i. linear_search xs t k = Some i \<and> i < length xs \<and> k (xs ! i) = t
           \<and> (\<forall>j<i. k (xs ! j) \<noteq> t)"
    by (simp add: linear_search_def)
next
  assume no: "t \<notin> k ` set xs"
  show "linear_search xs t k = None"
  proof (cases "linear_search xs t k")
    case (Some i)
    from linear_loop_Some [of t k 0 xs i] Some have "k (xs ! i) = t" "i < length xs"
      by (simp_all add: linear_search_def)
    with no show ?thesis by (metis image_eqI nth_mem)
  qed simp
next
  show "linear_search [(''a'', 1 :: int), (''b'', 2), (''c'', 1)] 1 snd = Some 0"
    by (simp add: linear_search_def)
qed

theorem linear_search_first_match_witness:
  "(1::int) \<in> snd ` set [(''b'', 2), (''a'', 1 :: int), (''c'', 1)]
   \<and> linear_search [(''b'', 2), (''a'', 1 :: int), (''c'', 1)] 1 snd = Some 1
   \<and> (3::int) \<notin> snd ` set [(''b'', 2), (''a'', 1 :: int), (''c'', 1)]
   \<and> linear_search [(''b'', 2), (''a'', 1 :: int), (''c'', 1)] 3 snd = None"
proof -
  have a: "(1::int) \<in> snd ` set [(''b'', 2), (''a'', 1 :: int), (''c'', 1)]" by simp
  have b: "(3::int) \<notin> snd ` set [(''b'', 2), (''a'', 1 :: int), (''c'', 1)]" by simp
  have c: "linear_search [(''b'', 2), (''a'', 1 :: int), (''c'', 1)] 1 snd = Some 1"
    by (simp add: linear_search_def)
  from linear_search_first_match [of 3 snd "[(''b'', 2), (''a'', 1 :: int), (''c'', 1)]"] a b c
  show ?thesis by blast
qed

text \<open>
  C6. Sorting is idempotent: a list that is already non-decreasing under the key is returned
  as it is by \<open>merge_sort\<close> and by \<open>insertion_sort\<close>, and hence sorting the result of either
  sort again, with either sort, changes nothing.
\<close>

theorem sorts_idempotent:
  fixes S :: "'a list" and k :: "'a \<Rightarrow> 'k::linorder"
  shows "(sorted (map k S) \<longrightarrow> merge_sort S k = S \<and> insertion_sort S k = S)
   \<and> merge_sort (merge_sort S k) k = merge_sort S k
   \<and> insertion_sort (insertion_sort S k) k = insertion_sort S k
   \<and> merge_sort (insertion_sort S k) k = insertion_sort S k
   \<and> insertion_sort (merge_sort S k) k = merge_sort S k"
proof -
  have id: "merge_sort xs k = xs \<and> insertion_sort xs k = xs" if "sorted (map k xs)"
    for xs :: "'a list"
    using that by (simp add: merge_sort_eq_sort_key insertion_sort_eq_sort_key sort_key_id_if_sorted)
  from id [of "merge_sort S k"] id [of "insertion_sort S k"] id [of S]
  show ?thesis
    using sorted_merge_sort [of k S] sorted_insertion_sort [of k S] by blast
qed

theorem sorts_idempotent_witness:
  "sorted (map (\<lambda>x. x mod 10) [21, 13, 33, 5 :: nat])
   \<and> merge_sort [21, 13, 33, 5 :: nat] (\<lambda>x. x mod 10) = [21, 13, 33, 5]
   \<and> insertion_sort [21, 13, 33, 5 :: nat] (\<lambda>x. x mod 10) = [21, 13, 33, 5]"
proof -
  have s: "sorted (map (\<lambda>x. x mod 10) [21, 13, 33, 5 :: nat])" by simp
  from sorts_idempotent [of "\<lambda>x. x mod 10" "[21, 13, 33, 5 :: nat]"] s
  show ?thesis by blast
qed

text \<open>
  C7. For every list \<open>S\<close> and key function \<open>k\<close>, the results of \<open>merge_sort\<close> and of
  \<open>insertion_sort\<close> have the same key projection: mapping \<open>k\<close> over the two results gives
  equal lists.
\<close>

theorem sorts_same_key_projection:
  "map k (merge_sort S k) = map k (insertion_sort S k)"
proof -
  have "merge_sort S k = sort_key k S"
    by (rule merge_sort_eq_sort_key)
  moreover have "insertion_sort S k = sort_key k S"
    by (rule insertion_sort_eq_sort_key)
  ultimately show ?thesis by simp
qed

theorem sorts_same_key_projection_witness:
  "map (\<lambda>x. x mod 10) (merge_sort [25, 13, 33, 5 :: nat] (\<lambda>x. x mod 10)) = [3, 3, 5, 5]
   \<and> map (\<lambda>x. x mod 10) (insertion_sort [25, 13, 33, 5 :: nat] (\<lambda>x. x mod 10)) = [3, 3, 5, 5]"
proof -
  have "merge_sort [25, 13, 33, 5 :: nat] (\<lambda>x. x mod 10) = [13, 33, 25, 5]"
    by (simp add: merge_sort.simps merge_def merge_loop.simps)
  then have m: "map (\<lambda>x. x mod 10) (merge_sort [25, 13, 33, 5 :: nat] (\<lambda>x. x mod 10)) = [3, 3, 5, 5]"
    by simp
  with sorts_same_key_projection [of "\<lambda>x. x mod 10" "[25, 13, 33, 5 :: nat]"]
  show ?thesis by simp
qed

text \<open>
  C10. Whatever the list, sorted or not: when \<open>binary_search\<close> returns an index \<open>i\<close>, then
  \<open>0 \<le> i < length data\<close> and the element at \<open>i\<close> has the target as its key.
\<close>

theorem binary_search_index_sound:
  "binary_search data target k = Some i \<Longrightarrow>
   0 \<le> i \<and> i < int (length data) \<and> k (data ! nat i) = target"
proof -
  assume "binary_search data target k = Some i"
  then have run: "binary_loop data target k 0 (int (length data) - 1) = Some i"
    by (simp add: binary_search_def)
  have "0 \<le> i \<and> i \<le> int (length data) - 1 \<and> k (data ! nat i) = target"
    by (rule binary_loop_sound [OF run]) simp_all
  then show ?thesis by simp
qed

theorem binary_search_index_sound_witness:
  "binary_search [9, 2, 7, 1 :: int] 2 (\<lambda>x. x) = Some 1
   \<and> (0::int) \<le> 1 \<and> (1::int) < int (length [9, 2, 7, 1 :: int]) \<and> [9, 2, 7, 1 :: int] ! nat 1 = 2"
proof -
  have r: "binary_search [9, 2, 7, 1 :: int] 2 (\<lambda>x. x) = Some 1"
    by (simp add: binary_search_def binary_loop.simps)
  from binary_search_index_sound [OF r] r show ?thesis by simp
qed

section \<open>Properties of the calls as Python runs them\<close>

subsection \<open>Indexing, slices and key calls\<close>

lemma py_get_in_range: "0 \<le> i \<Longrightarrow> i < int (length xs) \<Longrightarrow> py_get xs i = Inr (xs ! nat i)"
  by (simp add: py_get_def py_index_def)

lemma py_set_in_range: "0 \<le> i \<Longrightarrow> i < int (length xs) \<Longrightarrow> py_set xs i v = Inr (xs[nat i := v])"
  by (simp add: py_set_def py_index_def)

lemma slice_from_nonneg: "0 \<le> i \<Longrightarrow> slice_from xs i = drop (nat i) xs"
  by (simp add: slice_from_def slice_start_def)

lemma slice_to_nonneg: "0 \<le> i \<Longrightarrow> slice_to xs i = take (nat i) xs"
  by (simp add: slice_to_def slice_start_def)

lemma call_key_Inr: "key x = Inr u \<Longrightarrow> call_key key x = Inr u"
  by (simp add: call_key_def)

lemma call_key_Inl: "key x = Inl e \<Longrightarrow> call_key key x = Inl (KeyFailure e)"
  by (simp add: call_key_def)

lemma agrees_mono: "agrees key k S \<Longrightarrow> T \<subseteq> S \<Longrightarrow> agrees key k T"
  by (auto simp: agrees_def)

lemma raised_by_mono: "raised_by key T e \<Longrightarrow> T \<subseteq> S \<Longrightarrow> raised_by key S e"
  by (auto simp: raised_by_def)

subsection \<open>Runs of merge sort\<close>

lemma merge_test_cases:
  assumes "0 \<le> i" "i < int (length l)" "0 \<le> j" "j < int (length r)"
  shows "merge_test l r key i j =
           (case key (l ! nat i) of Inl e \<Rightarrow> Inl (KeyFailure e)
            | Inr u \<Rightarrow> (case key (r ! nat j) of Inl e \<Rightarrow> Inl (KeyFailure e) | Inr v \<Rightarrow> Inr (u \<le> v)))"
  using assms by (simp add: merge_test_def py_get_in_range call_key_def split: sum.splits)

lemma merge_lists_step_left:
  "ys = y # ys' \<Longrightarrow> key x \<le> key y \<Longrightarrow> merge_lists key (x # xs) ys = x # merge_lists key xs ys"
  by simp

lemma merge_lists_step_right:
  "xs = x # xs' \<Longrightarrow> \<not> key x \<le> key y \<Longrightarrow> merge_lists key xs (y # ys) = y # merge_lists key xs ys"
  by simp

lemma py_merge_loop_run:
  assumes "left < length h" "right < length h" "result < length h"
    and "result \<noteq> left" "result \<noteq> right" "0 \<le> i" "0 \<le> j"
    and "agrees key k (set (h ! left) \<union> set (h ! right))"
  shows "\<exists>res out. py_merge_loop left right key result i j h = Some (res, h[result := out])
           \<and> merge_loop_post key k (h ! left) (h ! right) i j (h ! result) res out"
  using assms
proof (induction "nat (int (length (h ! left)) - i) + nat (int (length (h ! right)) - j)"
         arbitrary: i j h rule: less_induct)
  case less
  let ?l = "h ! left" and ?r = "h ! right" and ?acc = "h ! result"
  note ag = less.prems(8)
  show ?case
  proof (cases "i < int (length ?l) \<and> j < int (length ?r)")
    case False
    have run: "py_merge_loop left right key result i j h = Some (Inr (i, j), h[result := ?acc])"
      using False by (subst py_merge_loop.simps) (simp only: if_False list_update_id)
    have "merge_lists k (drop (nat i) ?l) (drop (nat j) ?r) = drop (nat i) ?l @ drop (nat j) ?r"
    proof (cases "i < int (length ?l)")
      case True
      with False have "drop (nat j) ?r = []" by simp
      then show ?thesis by simp
    next
      case False
      then have "drop (nat i) ?l = []" by simp
      then show ?thesis by simp
    qed
    then have "merge_loop_post key k ?l ?r i j ?acc (Inr (i, j)) ?acc"
      using False less.prems(6,7) by (auto simp: merge_loop_post_def slice_from_nonneg)
    with run show ?thesis by blast
  next
    case True
    then have il: "i < int (length ?l)" and jr: "j < int (length ?r)" by simp_all
    let ?x = "?l ! nat i" and ?y = "?r ! nat j"
    have xin: "?x \<in> set ?l" and yin: "?y \<in> set ?r"
      using il jr less.prems(6,7) by simp_all
    have dl: "drop (nat i) ?l = ?x # drop (nat (i + 1)) ?l"
      using il less.prems(6) by (simp add: Cons_nth_drop_Suc nat_add_distrib)
    have dr: "drop (nat j) ?r = ?y # drop (nat (j + 1)) ?r"
      using jr less.prems(7) by (simp add: Cons_nth_drop_Suc nat_add_distrib)
    note mt = merge_test_cases [OF less.prems(6) il less.prems(7) jr, of key]
    show ?thesis
    proof (cases "key ?x")
      case (Inl e)
      have "py_merge_loop left right key result i j h = Some (Inl (KeyFailure e), h[result := ?acc])"
        using True mt Inl by (subst py_merge_loop.simps) simp
      moreover have "merge_loop_post key k ?l ?r i j ?acc (Inl (KeyFailure e)) ?acc"
        using xin Inl by (auto simp: merge_loop_post_def raised_by_def)
      ultimately show ?thesis by blast
    next
      case (Inr u)
      note kx = this
      show ?thesis
      proof (cases "key ?y")
        case (Inl e)
        have "py_merge_loop left right key result i j h = Some (Inl (KeyFailure e), h[result := ?acc])"
          using True mt kx Inl by (subst py_merge_loop.simps) simp
        moreover have "merge_loop_post key k ?l ?r i j ?acc (Inl (KeyFailure e)) ?acc"
          using yin Inl by (auto simp: merge_loop_post_def raised_by_def)
        ultimately show ?thesis by blast
      next
        case (Inr v)
        note ky = this
        have kxy: "k ?x = u" "k ?y = v"
          using ag xin yin kx ky by (auto simp: agrees_def)
        show ?thesis
        proof (cases "u \<le> v")
          case le: True
          let ?h1 = "h[result := ?acc @ [?x]]"
          have h1: "?h1 ! left = ?l" "?h1 ! right = ?r" "?h1 ! result = ?acc @ [?x]"
            using less.prems(1-5) by simp_all
          have step: "py_merge_loop left right key result i j h
                        = py_merge_loop left right key result (i + 1) j ?h1"
            using True mt kx ky le il less.prems(6)
            by (subst py_merge_loop.simps) (simp add: append_item_def py_get_in_range)
          have "nat (int (length (?h1 ! left)) - (i + 1)) + nat (int (length (?h1 ! right)) - j)
                  < nat (int (length ?l) - i) + nat (int (length ?r) - j)"
            using il h1 by simp
          from less.hyps [OF this] less.prems h1
          obtain res out where
            run: "py_merge_loop left right key result (i + 1) j ?h1 = Some (res, ?h1[result := out])"
            and post: "merge_loop_post key k ?l ?r (i + 1) j (?acc @ [?x]) res out"
            by force
          have "merge_loop_post key k ?l ?r i j ?acc res out"
          proof (cases res)
            case (Inl err)
            with post show ?thesis by (simp add: merge_loop_post_def)
          next
            case (Inr p)
            obtain i' j' where p: "p = (i', j')" by (cases p)
            have "merge_lists k (drop (nat i) ?l) (drop (nat j) ?r)
                    = ?x # merge_lists k (drop (nat (i + 1)) ?l) (drop (nat j) ?r)"
              using kxy le by (subst dl) (rule merge_lists_step_left [OF dr], simp)
            with post Inr p kx ky show ?thesis
              by (simp add: merge_loop_post_def)
          qed
          moreover have "py_merge_loop left right key result i j h = Some (res, h[result := out])"
            using step run by simp
          ultimately show ?thesis by blast
        next
          case gt: False
          let ?h1 = "h[result := ?acc @ [?y]]"
          have h1: "?h1 ! left = ?l" "?h1 ! right = ?r" "?h1 ! result = ?acc @ [?y]"
            using less.prems(1-5) by simp_all
          have step: "py_merge_loop left right key result i j h
                        = py_merge_loop left right key result i (j + 1) ?h1"
            using True mt kx ky gt jr less.prems(7)
            by (subst py_merge_loop.simps) (simp add: append_item_def py_get_in_range)
          have "nat (int (length (?h1 ! left)) - i) + nat (int (length (?h1 ! right)) - (j + 1))
                  < nat (int (length ?l) - i) + nat (int (length ?r) - j)"
            using jr h1 by simp
          from less.hyps [OF this] less.prems h1
          obtain res out where
            run: "py_merge_loop left right key result i (j + 1) ?h1 = Some (res, ?h1[result := out])"
            and post: "merge_loop_post key k ?l ?r i (j + 1) (?acc @ [?y]) res out"
            by force
          have "merge_loop_post key k ?l ?r i j ?acc res out"
          proof (cases res)
            case (Inl err)
            with post show ?thesis by (simp add: merge_loop_post_def)
          next
            case (Inr p)
            obtain i' j' where p: "p = (i', j')" by (cases p)
            have "merge_lists k (drop (nat i) ?l) (drop (nat j) ?r)
                    = ?y # merge_lists k (drop (nat i) ?l) (drop (nat (j + 1)) ?r)"
              using kxy gt by (subst dr) (rule merge_lists_step_right [OF dl], simp)
            with post Inr p kx ky show ?thesis
              by (simp add: merge_loop_post_def)
          qed
          moreover have "py_merge_loop left right key result i j h = Some (res, h[result := out])"
            using step run by simp
          ultimately show ?thesis by blast
        qed
      qed
    qed
  qed
qed

lemma extend_slice_eq:
  assumes "result < length h" "src < length h" "0 \<le> i"
  shows "extend_slice result src i h
           = h[result := h ! result @ drop (nat i) (h ! src)] @ [drop (nat i) (h ! src)]"
  using assms
  by (simp add: extend_slice_def alloc_def slice_from_nonneg nth_append list_update_append)

lemma py_merge_run:
  assumes "left < length h" "right < length h"
    and "agrees key k (set (h ! left) \<union> set (h ! right))"
  shows "\<exists>res new. py_merge left right key h = Some (res, h @ new)
           \<and> merge_post key k (h ! left) (h ! right) h res (h @ new)"
proof -
  let ?l = "h ! left" and ?r = "h ! right"
  let ?h1 = "h @ [[]]" and ?result = "length h"
  have h1: "?h1 ! left = ?l" "?h1 ! right = ?r" "?h1 ! ?result = []"
    using assms(1,2) by (simp_all add: nth_append)
  have "\<exists>res out. py_merge_loop left right key ?result 0 0 ?h1 = Some (res, ?h1[?result := out])
           \<and> merge_loop_post key k (?h1 ! left) (?h1 ! right) 0 0 (?h1 ! ?result) res out"
    using assms h1 by (intro py_merge_loop_run) simp_all
  then obtain res out where
    run: "py_merge_loop left right key ?result 0 0 ?h1 = Some (res, h @ [out])"
    and post: "merge_loop_post key k ?l ?r 0 0 [] res out"
    using h1 by auto
  show ?thesis
  proof (cases res)
    case (Inl err)
    have "py_merge left right key h = Some (Inl err, h @ [out])"
      using run Inl by (simp add: py_merge_def alloc_def)
    moreover have "merge_post key k ?l ?r h (Inl err) (h @ [out])"
      using post Inl by (simp add: merge_post_def merge_loop_post_def)
    ultimately show ?thesis using Inl by blast
  next
    case (Inr p)
    obtain i j where p: "p = (i, j)" by (cases p)
    from post Inr p have ij: "0 \<le> i" "0 \<le> j"
      by (simp_all add: merge_loop_post_def)
    from post Inr p ij have out: "out @ drop (nat i) ?l @ drop (nat j) ?r = merge_lists k ?l ?r"
      and first: "0 < length ?l \<and> 0 < length ?r \<longrightarrow>
                    (\<exists>u. key (?l ! 0) = Inr u) \<and> (\<exists>v. key (?r ! 0) = Inr v)"
      by (simp_all add: merge_loop_post_def slice_from_nonneg)
    let ?h2 = "h @ [out]"
    let ?h3 = "h @ [out @ drop (nat i) ?l] @ [drop (nat i) ?l]"
    let ?h4 = "h @ [out @ drop (nat i) ?l @ drop (nat j) ?r] @ [drop (nat i) ?l, drop (nat j) ?r]"
    have e1: "extend_slice ?result left i ?h2 = ?h3"
      using assms(1) ij(1) by (simp add: extend_slice_eq nth_append list_update_append)
    have e2: "extend_slice ?result right j ?h3 = ?h4"
      using assms(2) ij(2) by (simp add: extend_slice_eq nth_append list_update_append)
    have "py_merge left right key h = Some (Inr ?result, ?h4)"
      using run Inr p e1 e2 by (simp add: py_merge_def alloc_def)
    moreover have "merge_post key k ?l ?r h (Inr ?result) ?h4"
      using out first by (auto simp: merge_post_def nth_append hd_conv_nth)
    ultimately show ?thesis by blast
  qed
qed

lemma nat_int_half: "nat (int n div 2) = n div 2"
  by linarith

lemma py_merge_sort_base:
  "length (h ! data) \<le> 1 \<Longrightarrow> py_merge_sort data key h = Some (Inr (length h), h @ [h ! data])"
  by (subst py_merge_sort.simps) (simp add: alloc_def)

lemma set_merge_sort: "set (merge_sort xs k) = set xs"
  using mset_merge_sort [of xs k] by (metis set_mset_mset)

lemma length_merge_sort: "length (merge_sort xs k) = length xs"
  using mset_merge_sort [of xs k] by (metis size_mset)

lemma merge_sort_short: "length xs \<le> 1 \<Longrightarrow> merge_sort xs k = xs"
  by (subst merge_sort.simps) simp

lemma merge_sort_long:
  "\<not> length xs \<le> 1 \<Longrightarrow>
   merge_sort xs k = merge_lists k (merge_sort (take (length xs div 2) xs) k)
                       (merge_sort (drop (length xs div 2) xs) k)"
  by (subst merge_sort.simps) (simp add: Let_def merge_eq)

lemma py_merge_sort_run:
  assumes "data < length h" and "agrees key k (set (h ! data))"
  shows "\<exists>res new. py_merge_sort data key h = Some (res, h @ new)
           \<and> sort_post key (h ! data) (merge_sort (h ! data) k) h res (h @ new)"
  using assms
proof (induction "length (h ! data)" arbitrary: data h rule: less_induct)
  case less
  let ?xs = "h ! data"
  show ?case
  proof (cases "length ?xs \<le> 1")
    case True
    have "sort_post key ?xs (merge_sort ?xs k) h (Inr (length h)) (h @ [?xs])"
      using True by (simp add: sort_post_def merge_sort_short)
    with py_merge_sort_base [OF True, of key] show ?thesis by blast
  next
    case False
    let ?mid = "length ?xs div 2"
    let ?ls = "take ?mid ?xs" and ?rs = "drop ?mid ?xs"
    from False have len: "length ?ls < length ?xs" "length ?rs < length ?xs"
      "1 \<le> length ?ls" "1 \<le> length ?rs"
      by simp_all
    have sub: "set ?ls \<subseteq> set ?xs" "set ?rs \<subseteq> set ?xs"
      by (simp_all add: set_take_subset set_drop_subset)
    have un: "set ?ls \<union> set ?rs = set ?xs"
      by (metis append_take_drop_id set_append)
    let ?h1 = "h @ [?ls]"
    have h1at: "?h1 ! length h = ?ls"
      by (rule nth_append_length)
    have "\<exists>res new. py_merge_sort (length h) key ?h1 = Some (res, ?h1 @ new)
            \<and> sort_post key (?h1 ! length h) (merge_sort (?h1 ! length h) k) ?h1 res (?h1 @ new)"
    proof (rule less.hyps)
      show "length (?h1 ! length h) < length ?xs"
        unfolding h1at using len(1) .
      show "length h < length ?h1" by simp
      show "agrees key k (set (?h1 ! length h))"
        unfolding h1at using less.prems(2) sub(1) by (rule agrees_mono)
    qed
    then obtain res1 new1 where
      run1: "py_merge_sort (length h) key ?h1 = Some (res1, ?h1 @ new1)"
      and post1: "sort_post key ?ls (merge_sort ?ls k) ?h1 res1 (?h1 @ new1)"
      unfolding h1at by blast
    let ?h2 = "?h1 @ new1"
    have h2: "?h2 ! data = ?xs"
      using less.prems(1) by (simp add: nth_append)
    show ?thesis
    proof (cases res1)
      case (Inl err)
      have "py_merge_sort data key h = Some (Inl err, h @ ([?ls] @ new1))"
        using False run1 Inl
        by (subst py_merge_sort.simps) (simp add: alloc_def Let_def slice_to_nonneg nat_int_half)
      moreover have "sort_post key ?xs (merge_sort ?xs k) h (Inl err) (h @ ([?ls] @ new1))"
        using post1 Inl sub(1) by (auto simp: sort_post_def intro: raised_by_mono)
      ultimately show ?thesis by blast
    next
      case (Inr left)
      note r1 = this
      from post1 r1 have left: "left < length ?h2" "?h2 ! left = merge_sort ?ls k"
        and ok1: "2 \<le> length ?ls \<longrightarrow> (\<forall>x\<in>set ?ls. \<exists>u. key x = Inr u)"
        by (simp_all add: sort_post_def)
      let ?h3 = "?h2 @ [?rs]"
      have h3at: "?h3 ! length ?h2 = ?rs"
        by (rule nth_append_length)
      have "\<exists>res new. py_merge_sort (length ?h2) key ?h3 = Some (res, ?h3 @ new)
              \<and> sort_post key (?h3 ! length ?h2) (merge_sort (?h3 ! length ?h2) k) ?h3 res (?h3 @ new)"
      proof (rule less.hyps)
        show "length (?h3 ! length ?h2) < length ?xs"
          unfolding h3at using len(2) .
        show "length ?h2 < length ?h3" by simp
        show "agrees key k (set (?h3 ! length ?h2))"
          unfolding h3at using less.prems(2) sub(2) by (rule agrees_mono)
      qed
      then obtain res2 new2 where
        run2: "py_merge_sort (length ?h2) key ?h3 = Some (res2, ?h3 @ new2)"
        and post2: "sort_post key ?rs (merge_sort ?rs k) ?h3 res2 (?h3 @ new2)"
        unfolding h3at by blast
      let ?h4 = "?h3 @ new2"
      have unfold: "py_merge_sort data key h =
                      (case res2 of Inl e \<Rightarrow> Some (Inl e, ?h4) | Inr right \<Rightarrow> py_merge left right key ?h4)"
        using False run1 r1 run2 h2
        by (subst py_merge_sort.simps)
           (simp add: alloc_def Let_def slice_to_nonneg slice_from_nonneg nat_int_half
              split: sum.split)
      show ?thesis
      proof (cases res2)
        case (Inl err)
        have "py_merge_sort data key h = Some (Inl err, h @ ([?ls] @ new1 @ [?rs] @ new2))"
          using unfold Inl by simp
        moreover have "sort_post key ?xs (merge_sort ?xs k) h (Inl err) (h @ ([?ls] @ new1 @ [?rs] @ new2))"
          using post2 Inl sub(2) by (auto simp: sort_post_def intro: raised_by_mono)
        ultimately show ?thesis by blast
      next
        case (Inr right)
        note r2 = this
        from post2 r2 have right: "right < length ?h4" "?h4 ! right = merge_sort ?rs k"
          and ok2: "2 \<le> length ?rs \<longrightarrow> (\<forall>x\<in>set ?rs. \<exists>u. key x = Inr u)"
          by (simp_all add: sort_post_def)
        let ?L = "merge_sort ?ls k" and ?R = "merge_sort ?rs k"
        have "?h4 = ?h2 @ ([?rs] @ new2)" by simp
        then have "?h4 ! left = ?h2 ! left"
          using left(1) by (simp only: nth_append_left)
        with left have l4: "left < length ?h4" "?h4 ! left = ?L"
          by simp_all
        have "agrees key k (set (?h4 ! left) \<union> set (?h4 ! right))"
          using less.prems(2) un unfolding l4(2) right(2) by (simp add: set_merge_sort)
        from py_merge_run [OF l4(1) right(1) this]
        obtain res new3 where
          run3: "py_merge left right key ?h4 = Some (res, ?h4 @ new3)"
          and post3: "merge_post key k ?L ?R ?h4 res (?h4 @ new3)"
          unfolding l4(2) right(2) by blast
        let ?new = "[?ls] @ new1 @ [?rs] @ new2 @ new3"
        have run: "py_merge_sort data key h = Some (res, h @ ?new)"
          using unfold r2 run3 by simp
        have "sort_post key ?xs (merge_sort ?xs k) h res (h @ ?new)"
        proof (cases res)
          case (Inl err)
          with post3 un show ?thesis
            by (simp add: sort_post_def merge_post_def set_merge_sort)
        next
          case (Inr a)
          with post3 have a: "length ?h4 \<le> a" "a < length (?h4 @ new3)"
            "(?h4 @ new3) ! a = merge_lists k ?L ?R"
            and hd: "?L \<noteq> [] \<and> ?R \<noteq> [] \<longrightarrow> (\<exists>u. key (hd ?L) = Inr u) \<and> (\<exists>v. key (hd ?R) = Inr v)"
            by (simp_all add: merge_post_def)
          have ne: "?L \<noteq> []" "?R \<noteq> []"
            using len(3,4) length_merge_sort [of ?ls k] length_merge_sort [of ?rs k] by auto
          have okl: "\<forall>x\<in>set ?ls. \<exists>u. key x = Inr u"
          proof (cases "2 \<le> length ?ls")
            case True
            with ok1 show ?thesis by simp
          next
            case False
            with len(3) have one: "length ?ls = 1" by simp
            then obtain x where x: "?ls = [x]" by (cases ?ls) auto
            have "?L = [x]" unfolding x by (simp add: merge_sort_short)
            with hd ne x show ?thesis by simp
          qed
          have okr: "\<forall>x\<in>set ?rs. \<exists>u. key x = Inr u"
          proof (cases "2 \<le> length ?rs")
            case True
            with ok2 show ?thesis by simp
          next
            case False
            with len(4) have one: "length ?rs = 1" by simp
            then obtain x where x: "?rs = [x]" by (cases ?rs) auto
            have "?R = [x]" unfolding x by (simp add: merge_sort_short)
            with hd ne x show ?thesis by simp
          qed
          have "\<forall>x\<in>set ?xs. \<exists>u. key x = Inr u"
            using okl okr un by blast
          moreover have "merge_sort ?xs k = merge_lists k ?L ?R"
            using False by (rule merge_sort_long)
          moreover have "length h \<le> a" using a(1) by simp
          ultimately show ?thesis
            using Inr a(2,3) by (simp add: sort_post_def)
        qed
        with run show ?thesis by blast
      qed
    qed
  qed
qed

subsection \<open>Runs of insertion sort\<close>

lemma length_insertion_inner [simp]: "length (insertion_inner key current j result) = length result"
proof (induction key current j result rule: insertion_inner.induct)
  case (1 key current j result)
  show ?case
  proof (cases "j \<ge> 0 \<and> key (result ! nat j) > key current")
    case True
    with "1.IH" show ?thesis by (subst insertion_inner.simps) simp
  next
    case False
    then show ?thesis by (subst insertion_inner.simps) auto
  qed
qed

lemma insertion_round_eq:
  assumes "i < length xs"
  shows "insertion_inner k (xs ! i) (int i - 1) xs
           = rev (shift_in k (xs ! i) (rev (take i xs))) @ drop (Suc i) xs"
proof -
  have "xs = take i xs @ xs ! i # drop (Suc i) xs"
    using assms by (rule id_take_nth_drop)
  moreover have "length (take i xs) = i"
    using assms by simp
  ultimately show ?thesis
    using insertion_inner_eq [of k "xs ! i" "take i xs" "xs ! i" "drop (Suc i) xs"] by simp
qed

lemma mset_insertion_round:
  assumes "i < length xs"
  shows "mset (insertion_inner k (xs ! i) (int i - 1) xs) = mset xs"
proof -
  have "mset xs = mset (take i xs @ xs ! i # drop (Suc i) xs)"
    using assms by (simp flip: id_take_nth_drop)
  then show ?thesis
    using assms by (simp add: insertion_round_eq mset_shift_in)
qed

lemma set_insertion_round:
  "i < length xs \<Longrightarrow> set (insertion_inner k (xs ! i) (int i - 1) xs) = set xs"
  using mset_insertion_round [of i xs k] by (metis set_mset_mset)

lemma nth_insertion_round:
  assumes "i < m" "m < length xs"
  shows "insertion_inner k (xs ! i) (int i - 1) xs ! m = xs ! m"
proof -
  from assms have i: "i < length xs" by simp
  have "length (rev (shift_in k (xs ! i) (rev (take i xs)))) = Suc i"
    using i by simp
  then have "insertion_inner k (xs ! i) (int i - 1) xs ! m = drop (Suc i) xs ! (m - Suc i)"
    using assms by (simp only: insertion_round_eq [OF i] nth_append) simp
  also have "\<dots> = xs ! m"
    using assms by simp
  finally show ?thesis .
qed

lemma inner_guard_cases:
  assumes "0 \<le> j" "j < int (length xs)"
  shows "inner_guard key xs current j =
           (case key (xs ! nat j) of Inl e \<Rightarrow> Inl (KeyFailure e)
            | Inr u \<Rightarrow> (case key current of Inl e \<Rightarrow> Inl (KeyFailure e) | Inr v \<Rightarrow> Inr (u > v)))"
  using assms by (simp add: inner_guard_def py_get_in_range call_key_def split: sum.splits)

lemma py_insertion_inner_run:
  assumes "result < length h" "- 1 \<le> j" "j + 1 < int (length (h ! result))"
    and "agrees key k (insert current (set (h ! result)))"
  shows "\<exists>res out. py_insertion_inner key result current j h = Some (res, h[result := out])
           \<and> inner_post key k (h ! result) current j res out"
  using assms
proof (induction "nat (j + 1)" arbitrary: j h rule: less_induct)
  case less
  let ?xs = "h ! result"
  note ag = less.prems(4)
  show ?case
  proof (cases "0 \<le> j")
    case False
    have "py_insertion_inner key result current j h = Some (Inr j, h[result := ?xs])"
      using False by (subst py_insertion_inner.simps) (simp add: inner_guard_def)
    moreover have "insertion_inner k current j ?xs = ?xs[nat (j + 1) := current]"
      using False by (subst insertion_inner.simps) simp
    then have "inner_post key k ?xs current j (Inr j) ?xs"
      using False less.prems(2) by (simp add: inner_post_def)
    ultimately show ?thesis by blast
  next
    case True
    with less.prems(3) have jr: "j < int (length ?xs)" by simp
    let ?x = "?xs ! nat j"
    have xin: "?x \<in> set ?xs" using True jr by simp
    note g = inner_guard_cases [OF True jr, of key current]
    show ?thesis
    proof (cases "key ?x")
      case (Inl e)
      have "py_insertion_inner key result current j h = Some (Inl (KeyFailure e), h[result := ?xs])"
        using g Inl by (subst py_insertion_inner.simps) simp
      moreover have "inner_post key k ?xs current j (Inl (KeyFailure e)) ?xs"
        using xin Inl by (auto simp: inner_post_def raised_by_def)
      ultimately show ?thesis by blast
    next
      case (Inr u)
      note kx = this
      show ?thesis
      proof (cases "key current")
        case (Inl e)
        have "py_insertion_inner key result current j h = Some (Inl (KeyFailure e), h[result := ?xs])"
          using g kx Inl by (subst py_insertion_inner.simps) simp
        moreover have "inner_post key k ?xs current j (Inl (KeyFailure e)) ?xs"
          using Inl by (auto simp: inner_post_def raised_by_def)
        ultimately show ?thesis by blast
      next
        case (Inr v)
        note kc = this
        have kk: "k ?x = u" "k current = v"
          using ag xin kx kc by (auto simp: agrees_def)
        show ?thesis
        proof (cases "u > v")
          case False
          have "py_insertion_inner key result current j h = Some (Inr j, h[result := ?xs])"
            using g kx kc False by (subst py_insertion_inner.simps) simp
          moreover have "insertion_inner k current j ?xs = ?xs[nat (j + 1) := current]"
            using False kk by (subst insertion_inner.simps) simp
          then have "inner_post key k ?xs current j (Inr j) ?xs"
            using True kx kc by (simp add: inner_post_def)
          ultimately show ?thesis by blast
        next
          case gt: True
          let ?xs' = "?xs[nat (j + 1) := ?x]"
          let ?h1 = "h[result := ?xs']"
          have shift: "inner_shift ?xs j = Inr ?xs'"
            using True jr less.prems(3) by (simp add: inner_shift_def py_get_in_range py_set_in_range)
          have step: "py_insertion_inner key result current j h
                        = py_insertion_inner key result current (j - 1) ?h1"
            using g kx kc gt by (subst py_insertion_inner.simps) (simp add: shift)
          have h1: "?h1 ! result = ?xs'" using less.prems(1) by simp
          have sub: "set ?xs' \<subseteq> set ?xs"
            using xin set_update_subset_insert [of ?xs "nat (j + 1)" ?x] by auto
          have "\<exists>res out. py_insertion_inner key result current (j - 1) ?h1 = Some (res, ?h1[result := out])
                  \<and> inner_post key k (?h1 ! result) current (j - 1) res out"
          proof (rule less.hyps)
            show "nat (j - 1 + 1) < nat (j + 1)" using True by simp
            show "result < length ?h1" using less.prems(1) by simp
            show "- 1 \<le> j - 1" using True by simp
            show "j - 1 + 1 < int (length (?h1 ! result))" using jr h1 by simp
            show "agrees key k (insert current (set (?h1 ! result)))"
              unfolding h1 using ag sub by (auto intro: agrees_mono)
          qed
          then obtain res out where
            run: "py_insertion_inner key result current (j - 1) ?h1 = Some (res, h[result := out])"
            and post: "inner_post key k ?xs' current (j - 1) res out"
            unfolding h1 by auto
          have rec: "insertion_inner k current j ?xs = insertion_inner k current (j - 1) ?xs'"
            using True gt kk by (subst insertion_inner.simps) simp
          have "inner_post key k ?xs current j res out"
          proof (cases res)
            case (Inl err)
            with post sub show ?thesis
              by (auto simp: inner_post_def intro: raised_by_mono)
          next
            case (Inr j')
            with post rec True kx kc show ?thesis
              by (simp add: inner_post_def)
          qed
          with step run show ?thesis by auto
        qed
      qed
    qed
  qed
qed

lemma py_insertion_loop_run:
  assumes "result < length h" "1 \<le> i" "n = int (length (h ! result))"
    and "agrees key k (set (h ! result))"
  shows "\<exists>res out. py_insertion_loop key result i n h = Some (res, h[result := out])
           \<and> loop_post key k (h ! result) i n res out"
  using assms
proof (induction "nat (n - i)" arbitrary: i h rule: less_induct)
  case less
  let ?xs = "h ! result"
  let ?f = "\<lambda>result i. insertion_inner k (result ! i) (int i - 1) result"
  note n = less.prems(3) and ag = less.prems(4)
  show ?case
  proof (cases "i < n")
    case False
    have "py_insertion_loop key result i n h = Some (Inr (), h[result := ?xs])"
      using False by (subst py_insertion_loop.simps) simp
    moreover have "loop_post key k ?xs i n (Inr ()) ?xs"
      using False by (auto simp: loop_post_def)
    ultimately show ?thesis by blast
  next
    case True
    let ?current = "?xs ! nat i"
    have ir: "0 \<le> i" "i < int (length ?xs)" "nat i < length ?xs"
      using True less.prems(2) n by simp_all
    have cin: "?current \<in> set ?xs" using ir by simp
    have ins: "insert ?current (set ?xs) = set ?xs" using cin by auto
    have get: "py_get ?xs i = Inr ?current"
      using ir by (simp add: py_get_in_range)
    have "\<exists>res out. py_insertion_inner key result ?current (i - 1) h = Some (res, h[result := out])
            \<and> inner_post key k ?xs ?current (i - 1) res out"
      using less.prems(1,2) ir ag ins by (intro py_insertion_inner_run) simp_all
    then obtain res1 out1 where
      run1: "py_insertion_inner key result ?current (i - 1) h = Some (res1, h[result := out1])"
      and post1: "inner_post key k ?xs ?current (i - 1) res1 out1"
      by blast
    let ?h1 = "h[result := out1]"
    have h1: "?h1 ! result = out1" using less.prems(1) by simp
    show ?thesis
    proof (cases res1)
      case (Inl err)
      have "py_insertion_loop key result i n h = Some (Inl err, h[result := out1])"
        using True by (subst py_insertion_loop.simps) (simp add: get run1 Inl)
      moreover have "loop_post key k ?xs i n (Inl err) out1"
        using post1 Inl ins by (simp add: loop_post_def inner_post_def)
      ultimately show ?thesis by blast
    next
      case (Inr j)
      from post1 Inr less.prems(2) have j: "- 1 \<le> j" "j \<le> i - 1" "length out1 = length ?xs"
        and upd: "out1[nat (j + 1) := ?current] = insertion_inner k ?current (i - 1) ?xs"
        and ok: "(\<exists>u. key (?xs ! nat (i - 1)) = Inr u) \<and> (\<exists>v. key ?current = Inr v)"
        by (simp_all add: inner_post_def)
      let ?xs2 = "insertion_inner k ?current (i - 1) ?xs"
      have round: "?xs2 = ?f ?xs (nat i)"
        using ir(1) by simp
      have set: "py_set (?h1 ! result) (j + 1) ?current = Inr ?xs2"
        unfolding h1 using j ir by (simp add: py_set_in_range upd)
      let ?h2 = "h[result := ?xs2]"
      have h2: "?h2 ! result = ?xs2" using less.prems(1) by simp
      have step: "py_insertion_loop key result i n h = py_insertion_loop key result (i + 1) n ?h2"
        using True by (subst py_insertion_loop.simps) (simp add: get run1 Inr h1 set [unfolded h1])
      have set2: "set ?xs2 = set ?xs"
        unfolding round using ir(3) by (rule set_insertion_round)
      have "\<exists>res out. py_insertion_loop key result (i + 1) n ?h2 = Some (res, ?h2[result := out])
              \<and> loop_post key k (?h2 ! result) (i + 1) n res out"
      proof (rule less.hyps)
        show "nat (n - (i + 1)) < nat (n - i)" using True by simp
        show "result < length ?h2" using less.prems(1) by simp
        show "1 \<le> i + 1" using less.prems(2) by simp
        show "n = int (length (?h2 ! result))" unfolding h2 using n by simp
        show "agrees key k (set (?h2 ! result))" unfolding h2 set2 by (rule ag)
      qed
      then obtain res out where
        run: "py_insertion_loop key result (i + 1) n ?h2 = Some (res, h[result := out])"
        and post: "loop_post key k ?xs2 (i + 1) n res out"
        unfolding h2 by auto
      have "loop_post key k ?xs i n res out"
      proof (cases res)
        case (Inl err)
        with post set2 show ?thesis by (simp add: loop_post_def)
      next
        case r: (Inr u)
        from post r have out: "out = foldl ?f ?xs2 [nat (i + 1) ..< nat n]"
          and later: "\<forall>m. i + 1 \<le> m \<and> m < n \<longrightarrow> (\<exists>u. key (?xs2 ! nat m) = Inr u)"
          by (simp_all add: loop_post_def)
        have "[nat i ..< nat n] = nat i # [nat (i + 1) ..< nat n]"
          using True ir(1) by (simp add: upt_conv_Cons nat_add_distrib)
        then have a: "out = foldl ?f ?xs [nat i ..< nat n]"
          using out round by simp
        have b: "\<exists>u. key (?xs ! nat m) = Inr u" if m: "i \<le> m" "m < n" for m
        proof (cases "m = i")
          case True
          with ok show ?thesis by simp
        next
          case False
          with m have m': "i + 1 \<le> m" by simp
          have "nat i < nat m" "nat m < length ?xs"
            using m' m(2) ir(1) n by simp_all
          then have same: "?xs2 ! nat m = ?xs ! nat m"
            unfolding round by (rule nth_insertion_round)
          from later m' m(2) have "\<exists>u. key (?xs2 ! nat m) = Inr u" by blast
          then show ?thesis unfolding same .
        qed
        from a b ok r show ?thesis by (simp add: loop_post_def)
      qed
      with step run show ?thesis by auto
    qed
  qed
qed

lemma py_insertion_sort_run:
  assumes "data < length h" and "agrees key k (set (h ! data))"
  shows "\<exists>res new. py_insertion_sort data key h = Some (res, h @ new)
           \<and> sort_post key (h ! data) (insertion_sort (h ! data) k) h res (h @ new)"
proof -
  let ?xs = "h ! data"
  let ?h1 = "h @ [?xs]" and ?result = "length h"
  have h1: "?h1 ! ?result = ?xs" by simp
  have "\<exists>res out. py_insertion_loop key ?result 1 (int (length ?xs)) ?h1 = Some (res, ?h1[?result := out])
          \<and> loop_post key k (?h1 ! ?result) 1 (int (length ?xs)) res out"
    using assms(2) by (intro py_insertion_loop_run) simp_all
  then obtain res out where
    run: "py_insertion_loop key ?result 1 (int (length ?xs)) ?h1 = Some (res, h @ [out])"
    and post: "loop_post key k ?xs 1 (int (length ?xs)) res out"
    by auto
  show ?thesis
  proof (cases res)
    case (Inl err)
    have "py_insertion_sort data key h = Some (Inl err, h @ [out])"
      using run Inl by (simp add: py_insertion_sort_def alloc_def)
    moreover have "sort_post key ?xs (insertion_sort ?xs k) h (Inl err) (h @ [out])"
      using post Inl by (simp add: sort_post_def loop_post_def)
    ultimately show ?thesis by blast
  next
    case (Inr u)
    have "py_insertion_sort data key h = Some (Inr ?result, h @ [out])"
      using run Inr by (simp add: py_insertion_sort_def alloc_def)
    moreover have "sort_post key ?xs (insertion_sort ?xs k) h (Inr ?result) (h @ [out])"
    proof -
      from post Inr have out: "out = insertion_sort ?xs k"
        and later: "\<forall>m. 1 \<le> m \<and> m < int (length ?xs) \<longrightarrow> (\<exists>u. key (?xs ! nat m) = Inr u)"
        and first: "1 < int (length ?xs) \<longrightarrow> (\<exists>u. key (?xs ! nat (1 - 1)) = Inr u)"
        by (simp_all add: loop_post_def insertion_sort_def)
      have "\<forall>x\<in>set ?xs. \<exists>u. key x = Inr u" if "2 \<le> length ?xs"
      proof
        fix x assume "x \<in> set ?xs"
        then obtain m where m: "m < length ?xs" "?xs ! m = x"
          by (auto simp: in_set_conv_nth)
        show "\<exists>u. key x = Inr u"
        proof (cases m)
          case 0
          with first that m show ?thesis by simp
        next
          case (Suc m')
          then have "1 \<le> int m \<and> int m < int (length ?xs)" using m by simp
          with later have "\<exists>u. key (?xs ! nat (int m)) = Inr u" by blast
          with m show ?thesis by simp
        qed
      qed
      with out show ?thesis by (simp add: sort_post_def)
    qed
    ultimately show ?thesis by blast
  qed
qed

subsection \<open>Runs of the searches\<close>

lemma probe_in_range:
  "0 \<le> i \<Longrightarrow> i < int (length xs) \<Longrightarrow>
   probe xs key i = (case key (xs ! nat i) of Inl e \<Rightarrow> Inl (KeyFailure e) | Inr v \<Rightarrow> Inr v)"
  by (simp add: probe_def py_get_in_range call_key_def)

lemma py_binary_loop_run:
  assumes "0 \<le> low" "high < int (length xs)" "agrees key k (set xs)"
  shows "\<exists>res. py_binary_loop xs t key low high = Some res
           \<and> search_post key xs (binary_loop xs t k low high) res"
  using assms
proof (induction "nat (high - low + 1)" arbitrary: low high rule: less_induct)
  case less
  note ag = less.prems(3)
  show ?case
  proof (cases "low \<le> high")
    case False
    have "py_binary_loop xs t key low high = Some (Inr None)"
      using False by (subst py_binary_loop.simps) simp
    moreover have "binary_loop xs t k low high = None"
      using False by (subst binary_loop.simps) simp
    ultimately show ?thesis by (simp add: search_post_def)
  next
    case True
    let ?mid = "(low + high) div 2"
    have mid: "low \<le> ?mid" "?mid \<le> high" using True by linarith+
    then have mr: "0 \<le> ?mid" "?mid < int (length xs)"
      using less.prems(1,2) by linarith+
    let ?x = "xs ! nat ?mid"
    have xin: "?x \<in> set xs" using mr by simp
    note pr = probe_in_range [OF mr, of key]
    show ?thesis
    proof (cases "key ?x")
      case (Inl e)
      have "py_binary_loop xs t key low high = Some (Inl (KeyFailure e))"
        using True by (subst py_binary_loop.simps) (simp add: Let_def pr Inl)
      moreover have "raised_by key (set xs) (KeyFailure e)"
        using xin Inl by (auto simp: raised_by_def)
      ultimately show ?thesis by (simp add: search_post_def)
    next
      case (Inr v)
      have kv: "k ?x = v" using ag xin Inr by (auto simp: agrees_def)
      show ?thesis
      proof (cases "v = t")
        case True
        have "py_binary_loop xs t key low high = Some (Inr (Some ?mid))"
          using \<open>low \<le> high\<close> True by (subst py_binary_loop.simps) (simp add: Let_def pr Inr)
        moreover have "binary_loop xs t k low high = Some ?mid"
          using \<open>low \<le> high\<close> True kv by (subst binary_loop.simps) (simp add: Let_def)
        ultimately show ?thesis by (simp add: search_post_def)
      next
        case ne: False
        show ?thesis
        proof (cases "v < t")
          case lt: True
          have "py_binary_loop xs t key low high = py_binary_loop xs t key (?mid + 1) high"
            using True ne lt by (subst py_binary_loop.simps) (simp add: Let_def pr Inr)
          moreover have "binary_loop xs t k low high = binary_loop xs t k (?mid + 1) high"
            using True ne lt kv by (subst binary_loop.simps) (simp add: Let_def)
          moreover have "\<exists>res. py_binary_loop xs t key (?mid + 1) high = Some res
                  \<and> search_post key xs (binary_loop xs t k (?mid + 1) high) res"
            using mid mr less.prems by (intro less.hyps) linarith+
          ultimately show ?thesis by simp
        next
          case ge: False
          have "py_binary_loop xs t key low high = py_binary_loop xs t key low (?mid - 1)"
            using True ne ge by (subst py_binary_loop.simps) (simp add: Let_def pr Inr)
          moreover have "binary_loop xs t k low high = binary_loop xs t k low (?mid - 1)"
            using True ne ge kv by (subst binary_loop.simps) (simp add: Let_def)
          moreover have "\<exists>res. py_binary_loop xs t key low (?mid - 1) = Some res
                  \<and> search_post key xs (binary_loop xs t k low (?mid - 1)) res"
            using mid mr less.prems by (intro less.hyps) linarith+
          ultimately show ?thesis by simp
        qed
      qed
    qed
  qed
qed


lemma linear_loop_drop:
  "i < length xs \<Longrightarrow>
   linear_loop t k i (drop i xs) =
     (if k (xs ! i) = t then Some i else linear_loop t k (Suc i) (drop (Suc i) xs))"
  by (simp flip: Cons_nth_drop_Suc)

lemma py_linear_loop_run:
  assumes "0 \<le> i" "agrees key k (set xs)"
  shows "\<exists>res. py_linear_loop xs t key i = Some res
           \<and> search_post key xs (map_option int (linear_loop t k (nat i) (drop (nat i) xs))) res"
  using assms
proof (induction "nat (int (length xs) - i)" arbitrary: i rule: less_induct)
  case less
  note ag = less.prems(2)
  show ?case
  proof (cases "i < int (length xs)")
    case False
    have "py_linear_loop xs t key i = Some (Inr None)"
      using False by (subst py_linear_loop.simps) simp
    moreover have "drop (nat i) xs = []" using False by simp
    ultimately show ?thesis by (simp add: search_post_def)
  next
    case True
    let ?x = "xs ! nat i"
    have ir: "nat i < length xs" using True less.prems(1) by simp
    then have xin: "?x \<in> set xs" by simp
    note pr = probe_in_range [OF less.prems(1) True, of key]
    note pl = linear_loop_drop [OF ir, of t k]
    show ?thesis
    proof (cases "key ?x")
      case (Inl e)
      have "py_linear_loop xs t key i = Some (Inl (KeyFailure e))"
        using True by (subst py_linear_loop.simps) (simp add: pr Inl)
      moreover have "raised_by key (set xs) (KeyFailure e)"
        using xin Inl by (auto simp: raised_by_def)
      ultimately show ?thesis by (simp add: search_post_def)
    next
      case (Inr v)
      have kv: "k ?x = v" using ag xin Inr by (auto simp: agrees_def)
      show ?thesis
      proof (cases "v = t")
        case eq: True
        have "py_linear_loop xs t key i = Some (Inr (Some i))"
          using True eq by (subst py_linear_loop.simps) (simp add: pr Inr)
        moreover have "linear_loop t k (nat i) (drop (nat i) xs) = Some (nat i)"
          using eq kv by (simp add: pl)
        ultimately show ?thesis using less.prems(1) by (simp add: search_post_def)
      next
        case ne: False
        have "py_linear_loop xs t key i = py_linear_loop xs t key (i + 1)"
          using True ne by (subst py_linear_loop.simps) (simp add: pr Inr)
        moreover have "linear_loop t k (nat i) (drop (nat i) xs)
                         = linear_loop t k (nat (i + 1)) (drop (nat (i + 1)) xs)"
          using ne kv less.prems(1) by (simp add: pl nat_add_distrib)
        moreover have "\<exists>res. py_linear_loop xs t key (i + 1) = Some res
                \<and> search_post key xs (map_option int (linear_loop t k (nat (i + 1)) (drop (nat (i + 1)) xs))) res"
          using True less.prems by (intro less.hyps) simp_all
        ultimately show ?thesis by simp
      qed
    qed
  qed
qed


subsection \<open>From runs to outcomes\<close>

lemma agrees_ex: "\<exists>k. agrees key k S"
  by (rule exI [of _ "\<lambda>x. projr (key x)"]) (simp add: agrees_def)

lemma total_agrees: "\<forall>x\<in>S. key x = Inr (k x) \<Longrightarrow> agrees key k S"
  by (simp add: agrees_def)

lemma total_not_raised: "\<forall>x\<in>S. key x = Inr (k x) \<Longrightarrow> \<not> raised_by key S err"
  by (auto simp: raised_by_def)

lemma py_binary_search_run:
  assumes "agrees key k (set xs)"
  shows "\<exists>res. py_binary_search xs t key = Some res \<and> search_post key xs (binary_search xs t k) res"
  unfolding py_binary_search_def binary_search_def
  using assms by (intro py_binary_loop_run) simp_all

lemma py_linear_search_run:
  assumes "agrees key k (set xs)"
  shows "\<exists>res. py_linear_search xs t key = Some res
           \<and> search_post key xs (map_option int (linear_search xs t k)) res"
  using py_linear_loop_run [of 0 key k xs t] assms
  by (simp add: py_linear_search_def linear_search_def)



subsection \<open>The first failing key call\<close>


















section \<open>The claims about the calls as Python runs them\<close>

text \<open>
  The four lemmas that follow say that the functions on list values of the first part are
  what the calls compute when the key function raises on no item: the call returns, no
  exception is raised (in particular no \<^verbatim>\<open>IndexError\<close>), and the value is the one the
  function on list values gives.
\<close>

lemma py_merge_sort_total:
  assumes "data < length h" and "\<forall>x\<in>set (h ! data). key x = Inr (k x)"
  shows "\<exists>a new. py_merge_sort data key h = Some (Inr a, h @ new)
           \<and> (h @ new) ! a = merge_sort (h ! data) k"
proof -
  from py_merge_sort_run [OF assms(1) total_agrees [OF assms(2)]]
  obtain res new where r: "py_merge_sort data key h = Some (res, h @ new)"
    and p: "sort_post key (h ! data) (merge_sort (h ! data) k) h res (h @ new)"
    by blast
  from p total_not_raised [OF assms(2)] obtain a where "res = Inr a"
    by (cases res) (auto simp: sort_post_def)
  with r p show ?thesis by (auto simp: sort_post_def)
qed

lemma py_insertion_sort_total:
  assumes "data < length h" and "\<forall>x\<in>set (h ! data). key x = Inr (k x)"
  shows "\<exists>a new. py_insertion_sort data key h = Some (Inr a, h @ new)
           \<and> (h @ new) ! a = insertion_sort (h ! data) k"
proof -
  from py_insertion_sort_run [OF assms(1) total_agrees [OF assms(2)]]
  obtain res new where r: "py_insertion_sort data key h = Some (res, h @ new)"
    and p: "sort_post key (h ! data) (insertion_sort (h ! data) k) h res (h @ new)"
    by blast
  from p total_not_raised [OF assms(2)] obtain a where "res = Inr a"
    by (cases res) (auto simp: sort_post_def)
  with r p show ?thesis by (auto simp: sort_post_def)
qed

lemma py_binary_search_total:
  assumes "\<forall>x\<in>set xs. key x = Inr (k x)"
  shows "py_binary_search xs t key = Some (Inr (binary_search xs t k))"
proof -
  from py_binary_search_run [OF total_agrees [OF assms], of t]
  obtain res where r: "py_binary_search xs t key = Some res"
    and p: "search_post key xs (binary_search xs t k) res"
    by blast
  from p total_not_raised [OF assms] have "res = Inr (binary_search xs t k)"
    by (cases res) (auto simp: search_post_def)
  with r show ?thesis by simp
qed

lemma py_linear_search_total:
  assumes "\<forall>x\<in>set xs. key x = Inr (k x)"
  shows "py_linear_search xs t key = Some (Inr (map_option int (linear_search xs t k)))"
proof -
  from py_linear_search_run [OF total_agrees [OF assms], of t]
  obtain res where r: "py_linear_search xs t key = Some res"
    and p: "search_post key xs (map_option int (linear_search xs t k)) res"
    by blast
  from p total_not_raised [OF assms] have "res = Inr (map_option int (linear_search xs t k))"
    by (cases res) (auto simp: search_post_def)
  with r show ?thesis by simp
qed

text \<open>
  C5. Neither sort changes its input. For every heap \<open>h\<close>, every list object \<open>data\<close> of
  \<open>h\<close> and every key function, also one that raises, the call ends, and the heap \<open>h'\<close> after
  it starts with \<open>h\<close>: every list object that existed before the call, the argument among
  them, has the content it had. A returned list is an object that did not exist before the
  call.
\<close>

theorem sorts_leave_input_unchanged:
  fixes key :: "'a \<Rightarrow> 'e + 'k::linorder"
  assumes "data < length h"
  shows "(\<exists>res h'. py_merge_sort data key h = Some (res, h')
            \<and> take (length h) h' = h \<and> h' ! data = h ! data
            \<and> (\<forall>a. res = Inr a \<longrightarrow> length h \<le> a \<and> a < length h'))
         \<and> (\<exists>res h'. py_insertion_sort data key h = Some (res, h')
            \<and> take (length h) h' = h \<and> h' ! data = h ! data
            \<and> (\<forall>a. res = Inr a \<longrightarrow> length h \<le> a \<and> a < length h'))"
proof -
  obtain k where k: "agrees key k (set (h ! data))" using agrees_ex by blast
  have frame: "take (length h) (h @ new) = h \<and> (h @ new) ! data = h ! data
                 \<and> (\<forall>a. res = Inr a \<longrightarrow> length h \<le> a \<and> a < length (h @ new))"
    if "sort_post key (h ! data) expected h res (h @ new)"
    for new :: "'a heap" and res :: "'e exn + addr" and expected
    using that assms by (auto simp: sort_post_def nth_append)
  from py_merge_sort_run [OF assms k] frame have "\<exists>res h'. py_merge_sort data key h = Some (res, h')
            \<and> take (length h) h' = h \<and> h' ! data = h ! data
            \<and> (\<forall>a. res = Inr a \<longrightarrow> length h \<le> a \<and> a < length h')"
    by blast
  moreover from py_insertion_sort_run [OF assms k] frame
  have "\<exists>res h'. py_insertion_sort data key h = Some (res, h')
            \<and> take (length h) h' = h \<and> h' ! data = h ! data
            \<and> (\<forall>a. res = Inr a \<longrightarrow> length h \<le> a \<and> a < length h')"
    by blast
  ultimately show ?thesis by blast
qed

theorem sorts_leave_input_unchanged_witness:
  "(1::nat) < length [[7 :: nat], [3, 1, 2]]
   \<and> (\<exists>res h'. py_merge_sort 1 (\<lambda>x::nat. Inr x :: string + nat) [[7], [3, 1, 2]] = Some (res, h')
        \<and> take (length [[7 :: nat], [3, 1, 2]]) h' = [[7], [3, 1, 2]]
        \<and> h' ! 1 = [[7], [3, 1, 2]] ! 1)
   \<and> (\<exists>res h'. py_insertion_sort 1 (\<lambda>x::nat. Inr x :: string + nat) [[7], [3, 1, 2]] = Some (res, h')
        \<and> take (length [[7 :: nat], [3, 1, 2]]) h' = [[7], [3, 1, 2]]
        \<and> h' ! 1 = [[7], [3, 1, 2]] ! 1)"
proof -
  let ?h = "[[7 :: nat], [3, 1, 2]]"
  let ?key = "\<lambda>x::nat. Inr x :: string + nat"
  have a: "(1::nat) < length ?h" by simp
  note t = sorts_leave_input_unchanged [OF a, of ?key]
  from t [THEN conjunct1] obtain res h' where "py_merge_sort 1 ?key ?h = Some (res, h')"
    and "take (length ?h) h' = ?h" and "h' ! 1 = ?h ! 1"
    by (elim exE conjE)
  then have m: "\<exists>res h'. py_merge_sort 1 ?key ?h = Some (res, h')
        \<and> take (length ?h) h' = ?h \<and> h' ! 1 = ?h ! 1"
    by blast
  from t [THEN conjunct2] obtain res h' where "py_insertion_sort 1 ?key ?h = Some (res, h')"
    and "take (length ?h) h' = ?h" and "h' ! 1 = ?h ! 1"
    by (elim exE conjE)
  then have i: "\<exists>res h'. py_insertion_sort 1 ?key ?h = Some (res, h')
        \<and> take (length ?h) h' = ?h \<and> h' ! 1 = ?h ! 1"
    by blast
  from a m i show ?thesis by (intro conjI)
qed



text \<open>
  C9. Every call runs to completion. For every heap, every list object in it, every list,
  target and key function (also one that raises), \<open>merge_sort\<close>, \<open>insertion_sort\<close>,
  \<open>binary_search\<close> and \<open>linear_search\<close> end: the run is never \<open>None\<close>. The recursion of
  \<open>merge_sort\<close> is well-founded because for a list of two or more items both slices
  \<^verbatim>\<open>data[:mid]\<close> and \<^verbatim>\<open>data[mid:]\<close> are strictly shorter than \<^verbatim>\<open>data\<close>.
\<close>

theorem toolkit_calls_terminate:
  fixes key :: "'a \<Rightarrow> 'e + 'k::linorder"
  shows "(data < length h \<longrightarrow>
            (\<exists>r. py_merge_sort data key h = Some r) \<and> (\<exists>r. py_insertion_sort data key h = Some r))
         \<and> (\<exists>r. py_binary_search xs t key = Some r)
         \<and> (\<exists>r. py_linear_search xs t key = Some r)
         \<and> (2 \<le> length xs \<longrightarrow>
              length (slice_to xs (int (length xs) div 2)) < length xs
              \<and> length (slice_from xs (int (length xs) div 2)) < length xs)"
proof (intro conjI impI)
  obtain k1 where k1: "agrees key k1 (set (h ! data))" using agrees_ex by blast
  obtain k2 where k2: "agrees key k2 (set xs)" using agrees_ex by blast
  show "\<exists>r. py_merge_sort data key h = Some r" if "data < length h"
    using py_merge_sort_run [OF that k1] by blast
  show "\<exists>r. py_insertion_sort data key h = Some r" if "data < length h"
    using py_insertion_sort_run [OF that k1] by blast
  show "\<exists>r. py_binary_search xs t key = Some r"
    using py_binary_search_run [OF k2] by blast
  show "\<exists>r. py_linear_search xs t key = Some r"
    using py_linear_search_run [OF k2] by blast
  show "length (slice_to xs (int (length xs) div 2)) < length xs" if "2 \<le> length xs"
    using that by (simp add: slice_to_nonneg nat_int_half)
  show "length (slice_from xs (int (length xs) div 2)) < length xs" if "2 \<le> length xs"
    using that by (simp add: slice_from_nonneg nat_int_half)
qed

theorem toolkit_calls_terminate_witness:
  "(0::nat) < length [[3, 1, 2 :: nat]] \<and> 2 \<le> length [3, 1, 2 :: nat]
   \<and> (\<exists>r. py_merge_sort 0 (\<lambda>x::nat. if x = 1 then Inl ''bad key'' else Inr x) [[3, 1, 2]] = Some r)
   \<and> (\<exists>r. py_insertion_sort 0 (\<lambda>x::nat. if x = 1 then Inl ''bad key'' else Inr x) [[3, 1, 2]] = Some r)
   \<and> (\<exists>r. py_binary_search [3, 1, 2] 2 (\<lambda>x::nat. if x = 1 then Inl ''bad key'' else Inr x) = Some r)
   \<and> (\<exists>r. py_linear_search [3, 1, 2] 2 (\<lambda>x::nat. if x = 1 then Inl ''bad key'' else Inr x) = Some r)
   \<and> length (slice_to [3, 1, 2 :: nat] (int (length [3, 1, 2 :: nat]) div 2)) < length [3, 1, 2 :: nat]
   \<and> length (slice_from [3, 1, 2 :: nat] (int (length [3, 1, 2 :: nat]) div 2)) < length [3, 1, 2 :: nat]"
proof -
  have a: "(0::nat) < length [[3, 1, 2 :: nat]]" by simp
  have b: "2 \<le> length [3, 1, 2 :: nat]" by simp
  note t = toolkit_calls_terminate [of 0 "[[3, 1, 2 :: nat]]"
      "\<lambda>x::nat. if x = 1 then Inl ''bad key'' else Inr x" "[3, 1, 2]" 2]
  note t1 = t [THEN conjunct1, THEN mp, OF a]
  note t2 = t [THEN conjunct2, THEN conjunct1]
  note t3 = t [THEN conjunct2, THEN conjunct2, THEN conjunct1]
  note t4 = t [THEN conjunct2, THEN conjunct2, THEN conjunct2, THEN mp, OF b]
  from a b t1 t2 t3 t4 show ?thesis by (intro conjI) (erule conjunct1 conjunct2 | assumption)+
qed

end
